theory Spec2Isabelle
  imports Complex_Main "HOL-Library.Word" "HOL-Library.Multiset"
begin

section \<open>statsd-aggregator: data model\<close>

text \<open>
  The model follows \<^verbatim>\<open>statsd-aggregator.c\<close>. C \<^verbatim>\<open>int\<close> fields that hold lengths are
  \<^typ>\<open>int\<close> (their values stay far below \<open>2^31\<close>), array indices and pointer differences
  that the code keeps non-negative are \<^typ>\<open>nat\<close>. A \<^verbatim>\<open>char *\<close> into the receive buffer
  is the list of bytes from that position to the end of the received datagram; bytes
  behind the datagram are not part of the model.
\<close>

abbreviation DOWNSTREAM_BUF_SIZE :: int where "DOWNSTREAM_BUF_SIZE \<equiv> 1450"
abbreviation DOWNSTREAM_BUF_NUM :: nat where "DOWNSTREAM_BUF_NUM \<equiv> 16"
abbreviation NUM_OF_SLOTS :: int where "NUM_OF_SLOTS \<equiv> DOWNSTREAM_BUF_SIZE div 7"
abbreviation MAX_COUNTER_LENGTH :: int where "MAX_COUNTER_LENGTH \<equiv> 18"
abbreviation MAX_DOWNSTREAM_NUM :: nat where "MAX_DOWNSTREAM_NUM \<equiv> 32"
abbreviation MAX_PACKETS_PER_SOCKET :: int where "MAX_PACKETS_PER_SOCKET \<equiv> 1000"

datatype metric_type_e = TYPE_UNKNOWN | TYPE_COUNTER | TYPE_OTHER

text \<open>
  \<^verbatim>\<open>slot_s\<close>. The field \<open>buffer\<close> holds the bytes of the C array that have been written
  for this slot (name, then payload); \<open>length_s\<close> is the C field \<^verbatim>\<open>length\<close> and
  \<open>type_s\<close> the C field \<^verbatim>\<open>type\<close>. The type \<open>'d\<close> stands for the C \<^verbatim>\<open>double\<close>.
\<close>

record 'd slot_s =
  buffer :: string
  name_length :: int
  length_s :: int
  counter :: 'd
  type_s :: metric_type_e

text \<open>
  The parts of the C library the slot code calls on doubles. They are parameters of the
  model: \<open>strtod\<close> gets the bytes from the start pointer on and returns the value, the
  number of bytes consumed (\<^verbatim>\<open>endptr - nptr\<close>) and whether it set \<^verbatim>\<open>errno\<close>;
  \<open>sprintf_g15\<close> is \<^verbatim>\<open>sprintf\<close> with the format \<^verbatim>\<open>%.15g\<close>; \<open>d_add\<close> and \<open>d_div\<close> are
  \<^verbatim>\<open>+\<close> and \<^verbatim>\<open>/\<close> on doubles, \<open>d_zero\<close> and \<open>d_one\<close> the literals \<^verbatim>\<open>0.0\<close> and \<^verbatim>\<open>1\<close>.
\<close>

record 'd libc =
  strtod :: "string \<Rightarrow> 'd \<times> nat \<times> bool"
  sprintf_g15 :: "'d \<Rightarrow> string"
  d_add :: "'d \<Rightarrow> 'd \<Rightarrow> 'd"
  d_div :: "'d \<Rightarrow> 'd \<Rightarrow> 'd"
  d_zero :: 'd
  d_one :: 'd

text \<open>
  \<^verbatim>\<open>downstream_host_s\<close> with its embedded health client. \<open>host_ptr\<close> is the address
  \<^verbatim>\<open>malloc\<close> returned for the node (its identity), \<open>fd\<close> and \<open>active\<close> are the file
  descriptor and the started flag of the health watcher.
\<close>

record downstream_host_s =
  host_ptr :: nat
  s_addr :: "32 word"
  fd :: int
  active :: bool
  alive :: bool

text \<open>Messages of level ERROR, in the order \<^verbatim>\<open>log_msg\<close> is called.\<close>

datatype log_event =
  InvalidLength nat
  | InvalidMetric
  | InvalidMetricData
  | ImproperMetricType
  | InvalidCounterValue
  | LosingData
  | NoDownstreamHosts
  | SendtoFailed
  | GethostbynameFailed

text \<open>
  \<^verbatim>\<open>downstream_s\<close>. The slot array is the list of its used entries, so \<^verbatim>\<open>slots_used\<close>
  is the length of \<open>slots\<close>; \<open>buffer_ring\<close> holds, for each of the sixteen egress buffers,
  the bytes packed into it; \<open>flush_watcher\<close> tells whether the writable watcher is
  started; the linked list of hosts is the list of its nodes from the head and
  \<open>current_downstream_host\<close> a pointer (\<open>None\<close> is \<^verbatim>\<open>NULL\<close>). \<open>log_out\<close> and \<open>sent\<close> record
  the calls of \<^verbatim>\<open>log_msg\<close> at level ERROR and of \<^verbatim>\<open>sendto\<close>.
\<close>

record 'd downstream_s =
  active_buffer_idx :: nat
  active_buffer_length :: int
  flush_buffer_idx :: nat
  buffer_ring :: "string list"
  buffer_length :: "int list"
  in_addr_new :: "32 word list"
  in_addr_new_ready :: bool
  flush_watcher :: bool
  slots :: "'d slot_s list"
  downstream_host_num :: nat
  downstream_hosts :: "downstream_host_s list"
  packets_sent :: int
  current_downstream_host :: "nat option"
  log_out :: "log_event list"
  sent :: "(32 word \<times> string) list"

text \<open>Undefined behaviour of the C program that the model makes a result.\<close>

datatype error = SlotTableOverflow | UseAfterFree

definition slots_used :: "'d downstream_s \<Rightarrow> int" where
  "slots_used g = int (length (slots g))"

definition log_msg :: "log_event \<Rightarrow> 'd downstream_s \<Rightarrow> 'd downstream_s" where
  "log_msg e g = g\<lparr>log_out := log_out g @ [e]\<rparr>"

section \<open>Byte-level helpers\<close>

text \<open>\<^verbatim>\<open>memchr(s, c, n)\<close>: the offset of the first \<open>c\<close> among the first \<open>n\<close> bytes.\<close>

fun memchr :: "string \<Rightarrow> char \<Rightarrow> nat \<Rightarrow> nat option" where
  "memchr [] c n = None"
| "memchr (x # xs) c n =
     (if n = 0 then None
      else if x = c then Some 0
      else map_option Suc (memchr xs c (n - 1)))"

text \<open>\<^verbatim>\<open>*(p + k)\<close>; a byte behind the modelled memory reads as NUL.\<close>

definition byte_at :: "string \<Rightarrow> nat \<Rightarrow> char" where
  "byte_at s k = (if k < length s then s ! k else CHR 0x00)"

section \<open>Packing and rotation\<close>

text \<open>
  The loop of \<^verbatim>\<open>downstream_schedule_flush\<close> over the used slots: the accumulator is the
  content of the active buffer and the local \<^verbatim>\<open>active_buffer_length\<close>.
\<close>

fun pack_slots :: "'d slot_s list \<Rightarrow> string \<times> int \<Rightarrow> string \<times> int" where
  "pack_slots [] acc = acc"
| "pack_slots (s # ss) (ab, abl) =
     (let slot_data_length = length_s s in
      if slot_data_length = name_length s then pack_slots ss (ab, abl)
      else pack_slots ss
        (ab @ (take (nat slot_data_length) (buffer s))[nat slot_data_length - 1 := CHR 0x0A],
         abl + slot_data_length))"

definition downstream_schedule_flush :: "'d downstream_s \<Rightarrow> 'd downstream_s" where
  "downstream_schedule_flush g =
     (let new_active_buffer_idx = (active_buffer_idx g + 1) mod DOWNSTREAM_BUF_NUM;
          need_to_schedule_flush = (active_buffer_idx g = flush_buffer_idx g)
      in if buffer_length g ! new_active_buffer_idx > 0
         then (log_msg LosingData g)\<lparr>active_buffer_length := 0, slots := []\<rparr>
         else
           let packed = pack_slots (slots g) ([], 0);
               g1 = g\<lparr>buffer_ring := (buffer_ring g)[active_buffer_idx g := fst packed],
                      buffer_length := (buffer_length g)[active_buffer_idx g := snd packed],
                      active_buffer_length := 0,
                      slots := [],
                      active_buffer_idx := new_active_buffer_idx\<rparr>
           in if need_to_schedule_flush
              then g1\<lparr>packets_sent :=
                         (if packets_sent g1 > MAX_PACKETS_PER_SOCKET then 0 else packets_sent g1),
                      flush_watcher := True\<rparr>
              else g1)"

section \<open>Slot table\<close>

text \<open>
  \<^verbatim>\<open>add_slot\<close> writes the entry at index \<^verbatim>\<open>slots_used\<close>. The array has \<open>NUM_OF_SLOTS\<close>
  entries and the function does not check the index: a write behind the array is the
  result \<open>Inl SlotTableOverflow\<close>.
\<close>

definition add_slot ::
  "'d libc \<Rightarrow> string \<Rightarrow> int \<Rightarrow> 'd downstream_s \<Rightarrow> error + (nat \<times> 'd downstream_s)" where
  "add_slot L line nl g =
     (if slots_used g \<ge> NUM_OF_SLOTS then Inl SlotTableOverflow
      else Inr (length (slots g),
        g\<lparr>slots := slots g @
             [\<lparr>buffer = take (nat nl) line, name_length = nl, length_s = nl,
               counter = d_zero L, type_s = TYPE_UNKNOWN\<rparr>],
          active_buffer_length := active_buffer_length g + nl\<rparr>))"

text \<open>The search loop of \<^verbatim>\<open>find_slot\<close>, from index \<open>i\<close>.\<close>

fun slot_index :: "'d slot_s list \<Rightarrow> string \<Rightarrow> int \<Rightarrow> nat \<Rightarrow> nat option" where
  "slot_index [] line nl i = None"
| "slot_index (s # ss) line nl i =
     (if name_length s = nl \<and> take (nat nl) line = take (nat nl) (buffer s) then Some i
      else slot_index ss line nl (Suc i))"

definition find_slot ::
  "'d libc \<Rightarrow> string \<Rightarrow> int \<Rightarrow> 'd downstream_s \<Rightarrow> error + (nat \<times> 'd downstream_s)" where
  "find_slot L line nl g =
     (case slot_index (slots g) line nl 0 of
        Some i \<Rightarrow> Inr (i, g)
      | None \<Rightarrow>
          add_slot L line nl
            (if active_buffer_length g + nl > DOWNSTREAM_BUF_SIZE
             then downstream_schedule_flush g else g))"

section \<open>Inserting the value groups of a line\<close>

definition set_slot_type :: "nat \<Rightarrow> metric_type_e \<Rightarrow> 'd downstream_s \<Rightarrow> 'd downstream_s" where
  "set_slot_type i t g = g\<lparr>slots := (slots g)[i := (slots g ! i)\<lparr>type_s := t\<rparr>]\<rparr>"

text \<open>
  The rate of a counter group (lines 369 to 378): \<open>bp\<close> is \<^verbatim>\<open>buffer_ptr\<close>, \<open>tp\<close> the
  offset of \<^verbatim>\<open>type_ptr\<close>. The search for the second bar covers
  \<^verbatim>\<open>data_length - (type_ptr - buffer_ptr)\<close> bytes from \<^verbatim>\<open>type_ptr + 1\<close>.
\<close>

definition counter_rate :: "'d libc \<Rightarrow> string \<Rightarrow> nat \<Rightarrow> nat \<Rightarrow> 'd" where
  "counter_rate L bp data_length tp =
     (case memchr (drop (tp + 1) bp) (CHR ''|'') (data_length - tp) of
        None \<Rightarrow> d_one L
      | Some k \<Rightarrow>
          let rate_ptr = tp + 1 + k in
          if byte_at bp (rate_ptr + 1) = CHR ''@'' then
            (case strtod L (drop (rate_ptr + 2) bp) of
               (rate, n, err) \<Rightarrow>
                 if err \<or> rate_ptr + 2 + n + 1 \<noteq> data_length then d_one L else rate)
          else d_one L)"

text \<open>Lines 379 to 391: the counter branch for the slot \<open>i\<close>.\<close>

definition store_counter ::
  "'d libc \<Rightarrow> int \<Rightarrow> nat \<Rightarrow> string \<Rightarrow> nat \<Rightarrow> nat \<Rightarrow> 'd downstream_s \<Rightarrow> 'd downstream_s" where
  "store_counter L nl i bp data_length tp g =
     (let rate = counter_rate L bp data_length tp in
      case strtod L bp of
        (v, n, err) \<Rightarrow>
          if err \<or> n \<noteq> tp then log_msg InvalidCounterValue g
          else
            let s = slots g ! i;
                c = d_add L (counter s) (d_div L v rate);
                printed = sprintf_g15 L c @ ''|c'' @ [CHR 0x0A];
                counter_len = int (length printed);
                s' = s\<lparr>counter := c,
                       buffer := take (nat nl) (buffer s) @ printed,
                       length_s := name_length s + counter_len\<rparr>
            in g\<lparr>slots := (slots g)[i := s'],
                 active_buffer_length := active_buffer_length g - length_s s + length_s s'\<rparr>)"

text \<open>Lines 393 to 397: the branch for every other type.\<close>

definition store_other :: "nat \<Rightarrow> string \<Rightarrow> nat \<Rightarrow> 'd downstream_s \<Rightarrow> 'd downstream_s" where
  "store_other i bp data_length g =
     (let s = slots g ! i;
          s' = s\<lparr>buffer := take (nat (length_s s)) (buffer s) @
                              (take data_length bp)[data_length - 1 := CHR '':''],
                 length_s := length_s s + int data_length\<rparr>
      in g\<lparr>slots := (slots g)[i := s'],
           active_buffer_length := active_buffer_length g + int data_length\<rparr>)"

text \<open>Lines 346 to 349: only the byte behind the first bar decides the type.\<close>

definition metric_type_of :: "string \<Rightarrow> nat \<Rightarrow> metric_type_e" where
  "metric_type_of bp tp = (if byte_at bp (tp + 1) = CHR ''c'' then TYPE_COUNTER else TYPE_OTHER)"

text \<open>
  Lines 361 to 365: when the group may not fit, the table is flushed and a slot with the
  same name and the type of the group is added.
\<close>

definition needs_flush :: "metric_type_e \<Rightarrow> nat \<Rightarrow> 'd downstream_s \<Rightarrow> bool" where
  "needs_flush metric_type data_length g =
     (active_buffer_length g +
        (if metric_type = TYPE_COUNTER then MAX_COUNTER_LENGTH else int data_length)
      > DOWNSTREAM_BUF_SIZE)"

definition make_room ::
  "'d libc \<Rightarrow> string \<Rightarrow> int \<Rightarrow> nat \<Rightarrow> metric_type_e \<Rightarrow> nat \<Rightarrow> 'd downstream_s
     \<Rightarrow> error + (nat \<times> 'd downstream_s)" where
  "make_room L line nl slot_idx metric_type data_length g =
     (if needs_flush metric_type data_length g
      then (case add_slot L line nl (downstream_schedule_flush g) of
              Inl e \<Rightarrow> Inl e
            | Inr (i, g2) \<Rightarrow> Inr (i, set_slot_type i metric_type g2))
      else Inr (slot_idx, g))"

definition store_group ::
  "'d libc \<Rightarrow> int \<Rightarrow> nat \<Rightarrow> string \<Rightarrow> nat \<Rightarrow> nat \<Rightarrow> metric_type_e \<Rightarrow> 'd downstream_s
     \<Rightarrow> 'd downstream_s" where
  "store_group L nl i bp data_length tp metric_type g =
     (if metric_type = TYPE_COUNTER then store_counter L nl i bp data_length tp g
      else store_other i bp data_length g)"

text \<open>
  One round of the loop of \<^verbatim>\<open>insert_values_into_slot\<close> for the group of \<open>data_length\<close>
  bytes at \<open>bp\<close>; the result is the slot index the next round uses and the state.
\<close>

definition insert_group ::
  "'d libc \<Rightarrow> string \<Rightarrow> int \<Rightarrow> nat \<Rightarrow> string \<Rightarrow> nat \<Rightarrow> 'd downstream_s
     \<Rightarrow> error + (nat \<times> 'd downstream_s)" where
  "insert_group L line nl slot_idx bp data_length g =
     (case memchr bp (CHR ''|'') data_length of
        None \<Rightarrow> Inr (slot_idx, log_msg InvalidMetricData g)
      | Some tp \<Rightarrow>
          let metric_type = metric_type_of bp tp;
              slot_type = type_s (slots g ! slot_idx)
          in if slot_type \<noteq> TYPE_UNKNOWN \<and> slot_type \<noteq> metric_type
             then Inr (slot_idx, log_msg ImproperMetricType g)
             else
               (case make_room L line nl slot_idx metric_type data_length
                       (if slot_type = TYPE_UNKNOWN
                        then set_slot_type slot_idx metric_type g else g) of
                  Inl e \<Rightarrow> Inl e
                | Inr (i, g3) \<Rightarrow>
                    Inr (i, store_group L nl i bp data_length tp metric_type g3)))"

text \<open>
  The loop itself: \<open>bp\<close> and \<open>n\<close> are \<^verbatim>\<open>buffer_ptr\<close> and \<^verbatim>\<open>bytes_in_buffer\<close>. The loop
  ends after the group in which no colon was found.
\<close>

lemma memchr_less: "memchr s c n = Some i \<Longrightarrow> i < n"
proof (induction s arbitrary: n i)
  case Nil
  then show ?case by simp
next
  case (Cons x xs)
  then show ?case
    by (cases n) (auto split: if_splits)
qed

function insert_loop ::
  "'d libc \<Rightarrow> string \<Rightarrow> int \<Rightarrow> nat \<Rightarrow> string \<Rightarrow> nat \<Rightarrow> 'd downstream_s
     \<Rightarrow> error + (nat \<times> 'd downstream_s)" where
  "insert_loop L line nl slot_idx bp n g =
     (case memchr bp (CHR '':'') n of
        None \<Rightarrow> insert_group L line nl slot_idx bp n g
      | Some d \<Rightarrow>
          (case insert_group L line nl slot_idx bp (d + 1) g of
             Inl e \<Rightarrow> Inl e
           | Inr (i, g') \<Rightarrow> insert_loop L line nl i (drop (d + 1) bp) (n - (d + 1)) g'))"
  by pat_completeness auto
termination
  by (relation "measure (\<lambda>(L, line, nl, slot_idx, bp, n, g). n)") (auto dest: memchr_less)

declare insert_loop.simps [simp del]

definition insert_values_into_slot ::
  "'d libc \<Rightarrow> nat \<Rightarrow> string \<Rightarrow> nat \<Rightarrow> nat \<Rightarrow> 'd downstream_s \<Rightarrow> error + (nat \<times> 'd downstream_s)" where
  "insert_values_into_slot L initial_slot_idx line colon_ptr len g =
     insert_loop L line (name_length (slots g ! initial_slot_idx)) initial_slot_idx
       (drop (colon_ptr + 1) line) (len - colon_ptr - 1) g"

section \<open>Lines and datagrams\<close>

definition process_data_line :: "'d libc \<Rightarrow> string \<Rightarrow> nat \<Rightarrow> 'd downstream_s \<Rightarrow> error + 'd downstream_s" where
  "process_data_line L line len g =
     (case memchr line (CHR '':'') len of
        None \<Rightarrow> Inr (log_msg InvalidMetric g)
      | Some colon_ptr \<Rightarrow>
          (case find_slot L line (int colon_ptr + 1) g of
             Inl e \<Rightarrow> Inl e
           | Inr (slot_idx, g1) \<Rightarrow>
               (case insert_values_into_slot L slot_idx line colon_ptr len g1 of
                  Inl e \<Rightarrow> Inl e
                | Inr (i, g2) \<Rightarrow> Inr g2)))"

text \<open>The loop of \<^verbatim>\<open>udp_read_cb\<close> over the lines of the datagram.\<close>

function udp_lines :: "'d libc \<Rightarrow> string \<Rightarrow> nat \<Rightarrow> 'd downstream_s \<Rightarrow> error + 'd downstream_s" where
  "udp_lines L bp n g =
     (case memchr bp (CHR 0x0A) n of
        None \<Rightarrow> Inr g
      | Some d \<Rightarrow>
          let line_length = d + 1 in
          (case (if line_length > 6 \<and> int line_length < DOWNSTREAM_BUF_SIZE - MAX_COUNTER_LENGTH
                 then process_data_line L bp line_length g
                 else Inr (log_msg (InvalidLength (line_length - 1)) g)) of
             Inl e \<Rightarrow> Inl e
           | Inr g' \<Rightarrow> udp_lines L (drop line_length bp) (n - line_length) g'))"
  by pat_completeness auto
termination
  by (relation "measure (\<lambda>(L, bp, n, g). n)") (auto dest: memchr_less)

declare udp_lines.simps [simp del]

text \<open>
  \<^verbatim>\<open>udp_read_cb\<close> for a datagram \<open>pkt\<close> that \<^verbatim>\<open>recv\<close> returned (at most 4095 bytes): a
  newline is appended when the last byte is none.
\<close>

definition udp_read_cb :: "'d libc \<Rightarrow> string \<Rightarrow> 'd downstream_s \<Rightarrow> error + 'd downstream_s" where
  "udp_read_cb L pkt g =
     (if length pkt > 0 then
        (let buf = (if last pkt \<noteq> CHR 0x0A then pkt @ [CHR 0x0A] else pkt)
         in udp_lines L buf (length buf) g)
      else Inr g)"

definition downstream_flush_timer_cb :: "'d downstream_s \<Rightarrow> 'd downstream_s" where
  "downstream_flush_timer_cb g =
     (if active_buffer_length g > 0 then downstream_schedule_flush g else g)"

section \<open>Downstream selection and the writable callback\<close>

text \<open>The index of the node a host pointer points to; \<open>None\<close> for a pointer to a freed node.\<close>

fun host_index :: "downstream_host_s list \<Rightarrow> nat \<Rightarrow> nat option" where
  "host_index [] p = None"
| "host_index (h # hs) p =
     (if host_ptr h = p then Some 0 else map_option Suc (host_index hs p))"

text \<open>
  The loop of \<^verbatim>\<open>set_current_downstream_host\<close>: \<open>i\<close> rounds are left and \<open>k\<close> is the
  index of \<^verbatim>\<open>host\<close>. \<^verbatim>\<open>host->next\<close> is \<^verbatim>\<open>NULL\<close> at the last node.
\<close>

fun select_loop :: "downstream_host_s list \<Rightarrow> nat \<Rightarrow> nat \<Rightarrow> nat option" where
  "select_loop hs 0 k = None"
| "select_loop hs (Suc i) k =
     (let k' = (if Suc k < length hs then Suc k else 0) in
      if alive (hs ! k') then Some (host_ptr (hs ! k')) else select_loop hs i k')"

definition set_current_downstream_host :: "'d downstream_s \<Rightarrow> error + 'd downstream_s" where
  "set_current_downstream_host g =
     (case current_downstream_host g of
        None \<Rightarrow>
          (if downstream_hosts g = [] then Inr g
           else Inr (g\<lparr>current_downstream_host :=
                         select_loop (downstream_hosts g) (downstream_host_num g) 0\<rparr>))
      | Some p \<Rightarrow>
          (case host_index (downstream_hosts g) p of
             None \<Rightarrow> Inl UseAfterFree
           | Some k \<Rightarrow>
               Inr (g\<lparr>current_downstream_host :=
                        select_loop (downstream_hosts g) (downstream_host_num g) k\<rparr>)))"

text \<open>
  \<^verbatim>\<open>downstream_flush_cb\<close> without the \<^verbatim>\<open>EV_ERROR\<close> branch; \<open>send_ok\<close> tells whether
  \<^verbatim>\<open>sendto\<close> returned a non-negative value.
\<close>

definition downstream_flush_cb :: "bool \<Rightarrow> 'd downstream_s \<Rightarrow> error + 'd downstream_s" where
  "downstream_flush_cb send_ok g =
     (case set_current_downstream_host g of
        Inl e \<Rightarrow> Inl e
      | Inr g1 \<Rightarrow>
          (case current_downstream_host g1 of
             None \<Rightarrow> Inr ((log_msg NoDownstreamHosts g1)\<lparr>flush_watcher := False\<rparr>)
           | Some p \<Rightarrow>
               (case host_index (downstream_hosts g1) p of
                  None \<Rightarrow> Inl UseAfterFree
                | Some k \<Rightarrow>
                    let idx = flush_buffer_idx g1;
                        g2 = g1\<lparr>sent := sent g1 @
                                  [(s_addr (downstream_hosts g1 ! k),
                                    take (nat (buffer_length g1 ! idx)) (buffer_ring g1 ! idx))],
                               buffer_length := (buffer_length g1)[idx := 0],
                               packets_sent := packets_sent g1 + 1,
                               flush_buffer_idx := (idx + 1) mod DOWNSTREAM_BUF_NUM\<rparr>;
                        g3 = (if flush_buffer_idx g2 = active_buffer_idx g2
                              then g2\<lparr>flush_watcher := False\<rparr> else g2)
                    in Inr (if send_ok then g3 else log_msg SendtoFailed g3))))"

section \<open>Resolution results and reconciliation\<close>

text \<open>
  \<^verbatim>\<open>get_dns_data\<close> for the address list the resolver returned (empty when it failed).
\<close>

definition get_dns_data :: "32 word list \<Rightarrow> 'd downstream_s \<Rightarrow> 'd downstream_s" where
  "get_dns_data h_addr_list g =
     (if h_addr_list = [] then log_msg GethostbynameFailed g
      else
        let i = min MAX_DOWNSTREAM_NUM (length h_addr_list) in
        g\<lparr>in_addr_new := take i h_addr_list @ drop i (in_addr_new g),
          downstream_host_num := i,
          in_addr_new_ready := True\<rparr>)"

text \<open>The inner loop of \<^verbatim>\<open>update_downstreams\<close>: the first index below \<open>n\<close> holding \<open>a\<close>.\<close>

fun addr_index :: "32 word list \<Rightarrow> 32 word \<Rightarrow> nat \<Rightarrow> nat option" where
  "addr_index [] a n = None"
| "addr_index (x # xs) a n =
     (if n = 0 then None
      else if x = a then Some 0
      else map_option Suc (addr_index xs a (n - 1)))"

text \<open>
  The loop over the existing hosts. \<open>kept\<close> are the nodes before \<^verbatim>\<open>host\<close> that are still
  linked, \<open>dangling\<close> tells that \<^verbatim>\<open>prev\<close> points into the node freed in the round before:
  removing the next node as well writes through that pointer. A removal sets the cursor
  to the head of the list as it is before the node is unlinked.
\<close>

fun update_hosts ::
  "downstream_host_s list \<Rightarrow> nat \<Rightarrow> bool \<Rightarrow> downstream_host_s list \<times> 32 word list \<times> nat option
     \<Rightarrow> error + (downstream_host_s list \<times> 32 word list \<times> nat option)" where
  "update_hosts [] n dangling acc = Inr acc"
| "update_hosts (h # rest) n dangling (kept, new, cur) =
     (case addr_index new (s_addr h) n of
        Some i \<Rightarrow> update_hosts rest n False (kept @ [h], new[i := 0], cur)
      | None \<Rightarrow>
          if dangling then Inl UseAfterFree
          else update_hosts rest n True (kept, new, Some (host_ptr (hd (kept @ [h])))))"

text \<open>An address \<^verbatim>\<open>malloc\<close> has not handed out; allocation is taken to succeed.\<close>

definition fresh_ptr :: "downstream_host_s list \<Rightarrow> nat" where
  "fresh_ptr hs = Suc (fold max (map host_ptr hs) 0)"

text \<open>The second loop: every entry that is not zero becomes a new head of the list.\<close>

fun add_hosts :: "32 word list \<Rightarrow> downstream_host_s list \<Rightarrow> downstream_host_s list" where
  "add_hosts [] hs = hs"
| "add_hosts (a # as) hs =
     (if a = 0 then add_hosts as hs
      else add_hosts as
        (\<lparr>host_ptr = fresh_ptr hs, s_addr = a, fd = - 1, active = False, alive = False\<rparr> # hs))"

definition update_downstreams :: "'d downstream_s \<Rightarrow> error + 'd downstream_s" where
  "update_downstreams g =
     (if \<not> in_addr_new_ready g then Inr g
      else
        (case update_hosts (downstream_hosts g) (downstream_host_num g) False
                ([], in_addr_new g, current_downstream_host g) of
           Inl e \<Rightarrow> Inl e
         | Inr (kept, new, cur) \<Rightarrow>
             Inr (g\<lparr>downstream_hosts := add_hosts (take (downstream_host_num g) new) kept,
                    in_addr_new := new,
                    current_downstream_host := cur,
                    in_addr_new_ready := False\<rparr>)))"

text \<open>The state \<^verbatim>\<open>init_downstream\<close> leaves when the resolver returned \<open>h_addr_list\<close>.\<close>

definition init_downstream :: "32 word list \<Rightarrow> 'd downstream_s" where
  "init_downstream h_addr_list =
     get_dns_data h_addr_list
       \<lparr>active_buffer_idx = 0, active_buffer_length = 0, flush_buffer_idx = 0,
        buffer_ring = replicate DOWNSTREAM_BUF_NUM [],
        buffer_length = replicate DOWNSTREAM_BUF_NUM 0,
        in_addr_new = replicate MAX_DOWNSTREAM_NUM 0, in_addr_new_ready = False,
        flush_watcher = False, slots = [], downstream_host_num = 0, downstream_hosts = [],
        packets_sent = 0, current_downstream_host = None, log_out = [], sent = []\<rparr>"

section \<open>The reactor\<close>

text \<open>
  The health probe callbacks only change \<^verbatim>\<open>fd\<close>, the watcher and \<^verbatim>\<open>alive\<close> of the hosts;
  they are taken as one step that changes these fields in any way.
\<close>

definition same_hosts :: "downstream_host_s list \<Rightarrow> downstream_host_s list \<Rightarrow> bool" where
  "same_hosts hs hs' =
     (map host_ptr hs' = map host_ptr hs \<and> map s_addr hs' = map s_addr hs)"

text \<open>
  One callback of the event loop that returns. The writable callback runs only while its
  watcher is started; the resolver thread writes a result only while the ready flag is
  clear.
\<close>

inductive step :: "'d libc \<Rightarrow> 'd downstream_s \<Rightarrow> 'd downstream_s \<Rightarrow> bool" for L where
  udp_read: "length pkt < 4096 \<Longrightarrow> udp_read_cb L pkt g = Inr g' \<Longrightarrow> step L g g'"
| flush_timer: "step L g (downstream_flush_timer_cb g)"
| flush_writable: "flush_watcher g \<Longrightarrow> downstream_flush_cb ok g = Inr g' \<Longrightarrow> step L g g'"
| update: "update_downstreams g = Inr g' \<Longrightarrow> step L g g'"
| health: "same_hosts (downstream_hosts g) hs' \<Longrightarrow> step L g (g\<lparr>downstream_hosts := hs'\<rparr>)"
| refresh: "\<not> in_addr_new_ready g \<Longrightarrow> step L g (get_dns_data h_addr_list g)"

inductive reachable :: "'d libc \<Rightarrow> 'd downstream_s \<Rightarrow> bool" for L where
  start: "h_addr_list \<noteq> [] \<Longrightarrow> reachable L (init_downstream h_addr_list)"
| next_step: "reachable L g \<Longrightarrow> step L g g' \<Longrightarrow> reachable L g'"

section \<open>A decimal C library for examples\<close>

text \<open>
  The theorems below hold for every C library \<open>L\<close>. To run the code on concrete
  datagrams a library is needed; \<open>dec_libc\<close> computes with exact fractions (numerator,
  denominator): \<open>strtod_dec\<close> reads white space, a sign and a decimal numeral with an
  optional fraction part (no exponent, no hexadecimal, no \<^verbatim>\<open>inf\<close> or \<^verbatim>\<open>nan\<close> words), returns
  zero and consumes nothing when there is no numeral, as \<^verbatim>\<open>strtod\<close> of the GNU C library
  does, and never sets \<^verbatim>\<open>errno\<close>; a denominator of zero stands for the infinities and for
  NaN, which division by zero yields; \<open>sprintf_dec\<close> prints the fifteen significant digits
  of \<^verbatim>\<open>%.15g\<close>. It agrees with the doubles of the C program as long as every value has at
  most fifteen significant digits; rounding, overflow and the sign of zero are not modelled.
\<close>

type_synonym dec = "int \<times> int"

definition dec_add :: "dec \<Rightarrow> dec \<Rightarrow> dec" where
  "dec_add x y =
     (case (x, y) of
        ((a, b), (c, d)) \<Rightarrow>
          if b = 0 \<and> d = 0 then (if sgn a = sgn c then (sgn a, 0) else (0, 0))
          else if b = 0 then (sgn a, 0)
          else if d = 0 then (sgn c, 0)
          else (a * d + c * b, b * d))"

definition dec_div :: "dec \<Rightarrow> dec \<Rightarrow> dec" where
  "dec_div x y =
     (case (x, y) of
        ((a, b), (c, d)) \<Rightarrow>
          if b = 0 then (if a = 0 \<or> d = 0 then (0, 0) else (if c < 0 then - sgn a else sgn a, 0))
          else if d = 0 then (if c = 0 then (0, 0) else (0, 1))
          else if c = 0 then (sgn a, 0)
          else if c < 0 then (- (a * d), - (b * c))
          else (a * d, b * c))"

definition is_space :: "char \<Rightarrow> bool" where
  "is_space c = (c \<in> set [CHR 0x20, CHR 0x09, CHR 0x0A, CHR 0x0B, CHR 0x0C, CHR 0x0D])"

definition is_digit :: "char \<Rightarrow> bool" where
  "is_digit c = (c \<in> set ''0123456789'')"

fun digits_value :: "string \<Rightarrow> int \<Rightarrow> int" where
  "digits_value [] acc = acc"
| "digits_value (c # cs) acc = digits_value cs (acc * 10 + (of_char c - 48))"

definition strtod_dec :: "string \<Rightarrow> dec \<times> nat \<times> bool" where
  "strtod_dec s =
     (let ws = takeWhile is_space s;
          s1 = drop (length ws) s;
          neg = (s1 \<noteq> [] \<and> hd s1 = CHR ''-'');
          sl = (if s1 \<noteq> [] \<and> (hd s1 = CHR ''-'' \<or> hd s1 = CHR ''+'') then 1 else 0);
          s2 = drop sl s1;
          ip = takeWhile is_digit s2;
          s3 = drop (length ip) s2;
          dot = (s3 \<noteq> [] \<and> hd s3 = CHR ''.'');
          fp = (if dot then takeWhile is_digit (tl s3) else []);
          dl = (if dot then 1 else 0)
      in if ip = [] \<and> fp = [] then ((0, 1), 0, False)
         else (((if neg then - 1 else 1) * digits_value (ip @ fp) 0, 10 ^ length fp),
               length ws + sl + length ip + dl + length fp, False))"

fun dec_digits :: "nat \<Rightarrow> int \<Rightarrow> string" where
  "dec_digits 0 n = []"
| "dec_digits (Suc k) n = dec_digits k (n div 10) @ [''0123456789'' ! nat (n mod 10)]"

function num_digits :: "int \<Rightarrow> nat" where
  "num_digits n = (if n < 10 then 1 else Suc (num_digits (n div 10)))"
  by pat_completeness auto
termination
  by (relation "measure nat") auto

fun scale_up :: "nat \<Rightarrow> int \<Rightarrow> int \<Rightarrow> nat" where
  "scale_up 0 p q = 0"
| "scale_up (Suc f) p q = (if p \<ge> q then 0 else Suc (scale_up f (p * 10) q))"

definition dec_exponent :: "int \<Rightarrow> int \<Rightarrow> int" where
  "dec_exponent p q =
     (if p \<ge> q then int (num_digits (p div q)) - 1
      else - int (scale_up (Suc (num_digits q)) p q))"

definition round_half_even :: "int \<Rightarrow> int \<Rightarrow> int" where
  "round_half_even n d =
     (let f = n div d; r = n mod d in
      if 2 * r < d then f else if 2 * r > d then f + 1 else if even f then f else f + 1)"

definition strip_zeros :: "string \<Rightarrow> string" where
  "strip_zeros s = rev (dropWhile (\<lambda>c. c = CHR ''0'') (rev s))"

definition sprintf_dec :: "dec \<Rightarrow> string" where
  "sprintf_dec x =
     (case x of
        (a, b) \<Rightarrow>
          if b = 0 then (if a = 0 then ''nan'' else if a < 0 then ''-inf'' else ''inf'')
          else if a = 0 then ''0''
          else
            let p = \<bar>a\<bar>; q = \<bar>b\<bar>;
                e0 = dec_exponent p q;
                m0 = (if e0 \<le> 14 then round_half_even (p * 10 ^ nat (14 - e0)) q
                      else round_half_even p (q * 10 ^ nat (e0 - 14)));
                e = (if m0 \<ge> 10 ^ 15 then e0 + 1 else e0);
                m = (if m0 \<ge> 10 ^ 15 then m0 div 10 else m0);
                ds = dec_digits 15 m;
                body =
                  (if e < - 4 \<or> e \<ge> 15 then
                     (let fr = strip_zeros (tl ds) in
                      hd ds # (if fr = [] then [] else CHR ''.'' # fr) @
                      [CHR ''e'', if e < 0 then CHR ''-'' else CHR ''+''] @
                      dec_digits (max 2 (num_digits \<bar>e\<bar>)) \<bar>e\<bar>)
                   else if e \<ge> 0 then
                     (let fr = strip_zeros (drop (nat e + 1) ds) in
                      take (nat e + 1) ds @ (if fr = [] then [] else CHR ''.'' # fr))
                   else
                     (let fr = strip_zeros (replicate (nat (- e - 1)) (CHR ''0'') @ ds) in
                      ''0'' @ (if fr = [] then [] else CHR ''.'' # fr)))
            in (if (a < 0) \<noteq> (b < 0) then ''-'' else '''') @ body)"

definition dec_libc :: "dec libc" where
  "dec_libc = \<lparr>strtod = strtod_dec, sprintf_g15 = sprintf_dec, d_add = dec_add, d_div = dec_div,
               d_zero = (0, 1), d_one = (1, 1)\<rparr>"


section \<open>Predicates of the claims and example states\<close>

text \<open>The accounting integer agrees with the slot table.\<close>

definition accounting_ok :: "'d downstream_s \<Rightarrow> bool" where
  "accounting_ok g = (active_buffer_length g = sum_list (map length_s (slots g)))"


text \<open>A metric line of 1432 bytes, the newline included.\<close>

definition line_1432 :: string where
  "line_1432 = ''a:'' @ replicate 1426 (CHR ''x'') @ ''|ms'' @ [CHR 0x0A]"



text \<open>The state after the first datagram \<^verbatim>\<open>aa:1|c\nb:250|ms\n\<close> was read.\<close>

definition example_window :: "dec downstream_s" where
  "example_window =
     (init_downstream [0x0A000001])
       \<lparr>active_buffer_length := 16,
        slots := [\<lparr>buffer = ''aa:1|c\<newline>'', name_length = 3, length_s = 7,
                    counter = (1, 1), type_s = TYPE_COUNTER\<rparr>,
                  \<lparr>buffer = ''b:250|ms:'', name_length = 2, length_s = 9,
                    counter = (0, 1), type_s = TYPE_OTHER\<rparr>]\<rparr>"

text \<open>
  Round-robin selection in the words of the specification: the positions the cursor takes
  when it advances \<open>n\<close> times from position \<open>k\<close> in a list of \<open>m\<close> hosts, wrapping at the end,
  and the first host on the way whose alive bit is set.
\<close>

definition visited :: "nat \<Rightarrow> nat \<Rightarrow> nat \<Rightarrow> nat list" where
  "visited m k n = map (\<lambda>j. (k + j) mod m) [1..<Suc n]"

definition first_alive_after :: "downstream_host_s list \<Rightarrow> nat \<Rightarrow> nat \<Rightarrow> nat option" where
  "first_alive_after hs k n =
     map_option (\<lambda>p. host_ptr (hs ! p)) (find (\<lambda>p. alive (hs ! p)) (visited (length hs) k n))"

text \<open>The position of the cursor: the head when it is \<^verbatim>\<open>NULL\<close>.\<close>

definition cursor_index :: "'d downstream_s \<Rightarrow> nat option" where
  "cursor_index g =
     (case current_downstream_host g of
        None \<Rightarrow> Some 0
      | Some p \<Rightarrow> host_index (downstream_hosts g) p)"

text \<open>Two hosts, none alive, and a flush under way.\<close>

definition two_hosts :: "dec downstream_s" where
  "two_hosts =
     (init_downstream [0x0A000001, 0x0A000002])
       \<lparr>downstream_hosts :=
          [\<lparr>host_ptr = 2, s_addr = 0x0A000002, fd = - 1, active = False, alive = False\<rparr>,
           \<lparr>host_ptr = 1, s_addr = 0x0A000001, fd = - 1, active = False, alive = False\<rparr>],
        in_addr_new := replicate MAX_DOWNSTREAM_NUM 0,
        in_addr_new_ready := False,
        flush_watcher := True\<rparr>"

text \<open>
  The host list after the resolver first returned two addresses and then only the first
  one: the update removes the head of the list and leaves the cursor at the removed node
  (\<open>head_removed\<close>); \<open>head_removed_sending\<close> is this state with the datagram \<^verbatim>\<open>aa:1|c\<close>
  queued and the writable watcher started.
\<close>

definition head_removed :: "dec downstream_s" where
  "head_removed =
     (init_downstream [0x0A000001, 0x0A000002])
       \<lparr>downstream_hosts :=
          [\<lparr>host_ptr = 1, s_addr = 0x0A000001, fd = - 1, active = False, alive = False\<rparr>],
        in_addr_new := 0 # 0x0A000002 # replicate 30 0,
        downstream_host_num := 1,
        in_addr_new_ready := False,
        current_downstream_host := Some 2\<rparr>"

definition head_removed_sending :: "dec downstream_s" where
  "head_removed_sending =
     head_removed
       \<lparr>active_buffer_idx := 1,
        buffer_ring := ''aa:1|c\<newline>'' # replicate 15 [],
        buffer_length := 7 # replicate 15 0,
        flush_watcher := True\<rparr>"

text \<open>
  One host that is alive and probing; the resolver has delivered its address twice
  (\<open>one_host\<close>) or once (\<open>one_host_same\<close>).
\<close>

definition one_host :: "dec downstream_s" where
  "one_host =
     (init_downstream [0x0A000001, 0x0A000001])
       \<lparr>downstream_hosts :=
          [\<lparr>host_ptr = 1, s_addr = 0x0A000001, fd = 7, active = True, alive = True\<rparr>]\<rparr>"

definition one_host_same :: "dec downstream_s" where
  "one_host_same =
     (init_downstream [0x0A000001])
       \<lparr>downstream_hosts :=
          [\<lparr>host_ptr = 1, s_addr = 0x0A000001, fd = 7, active = True, alive = True\<rparr>]\<rparr>"

text \<open>
  A property of the state that logging, a rotation and every update of the slot table
  and its accounting keep.
\<close>

definition table_update_closed :: "('d downstream_s \<Rightarrow> bool) \<Rightarrow> bool" where
  "table_update_closed P =
     ((\<forall>g e. P g \<longrightarrow> P (log_msg e g)) \<and>
      (\<forall>g. P g \<longrightarrow> P (downstream_schedule_flush g)) \<and>
      (\<forall>g ss n. P g \<longrightarrow> P (g\<lparr>slots := ss, active_buffer_length := n\<rparr>)))"

text \<open>
  The writable watcher is stopped while the buffer at the flush index \<open>f\<close> holds \<open>b\<close> bytes
  and is not the active one; \<open>sn\<close> are the datagrams sent so far.
\<close>

definition stalled :: "nat \<Rightarrow> int \<Rightarrow> (32 word \<times> string) list \<Rightarrow> 'd downstream_s \<Rightarrow> bool" where
  "stalled f b sn g =
     (\<not> flush_watcher g \<and> flush_buffer_idx g = f \<and> active_buffer_idx g \<noteq> f \<and>
      buffer_length g ! f = b \<and> sent g = sn)"

text \<open>One flush window: a datagram arrives, then the flush timer fires.\<close>

definition window_round :: "'d libc \<Rightarrow> string \<Rightarrow> 'd downstream_s \<Rightarrow> 'd downstream_s" where
  "window_round L pkt g =
     (case udp_read_cb L pkt g of Inl e \<Rightarrow> g | Inr g' \<Rightarrow> downstream_flush_timer_cb g')"

text \<open>
  States in which the writable callback found no host and stopped the watcher: with the
  datagram \<^verbatim>\<open>aa:1|c\<close> queued (\<open>stalled_full\<close>), and with an empty datagram queued
  (\<open>stalled_example\<close>, and \<open>after_rounds k\<close> after \<open>k\<close> more windows of \<^verbatim>\<open>aa:1234\<close>).
\<close>

definition stalled_full :: "dec downstream_s" where
  "stalled_full =
     (init_downstream [0x0A000001])
       \<lparr>active_buffer_idx := 1,
        buffer_ring := ''aa:1|c\<newline>'' # replicate 15 [],
        buffer_length := 7 # replicate 15 0,
        log_out := [NoDownstreamHosts]\<rparr>"

definition after_rounds :: "nat \<Rightarrow> dec downstream_s" where
  "after_rounds k =
     (init_downstream [0x0A000001])
       \<lparr>active_buffer_idx := (1 + k) mod DOWNSTREAM_BUF_NUM,
        log_out := [InvalidMetricData, NoDownstreamHosts] @ replicate k InvalidMetricData\<rparr>"

definition stalled_example :: "dec downstream_s" where
  "stalled_example =
     (init_downstream [0x0A000001])
       \<lparr>active_buffer_idx := 1, log_out := [InvalidMetricData, NoDownstreamHosts]\<rparr>"

text \<open>The entry \<^verbatim>\<open>add_slot\<close> writes for a name of \<open>nl\<close> bytes.\<close>

definition new_slot :: "'d libc \<Rightarrow> string \<Rightarrow> int \<Rightarrow> 'd slot_s" where
  "new_slot L line nl =
     \<lparr>buffer = take (nat nl) line, name_length = nl, length_s = nl,
      counter = d_zero L, type_s = TYPE_UNKNOWN\<rparr>"

text \<open>
  208 names of two letters, a line without a type for a name, and the datagram of these
  lines; \<open>name_slot\<close> is the slot such a line leaves.
\<close>

definition short_names :: "string list" where
  "short_names = concat (map (\<lambda>a. map (\<lambda>b. [a, b]) ''abcdefghijklm'') ''abcdefghijklmnop'')"

definition untyped_line :: "string \<Rightarrow> string" where
  "untyped_line nm = nm @ CHR '':'' # ''1234'' @ [CHR 0x0A]"

definition slot_overflow_pkt :: string where
  "slot_overflow_pkt = concat (map untyped_line short_names)"

definition name_slot :: "'d libc \<Rightarrow> string \<Rightarrow> 'd slot_s" where
  "name_slot L nm =
     \<lparr>buffer = nm @ [CHR '':''], name_length = 3, length_s = 3,
      counter = d_zero L, type_s = TYPE_UNKNOWN\<rparr>"

text \<open>
  Two lines of one datagram: a line of 1430 bytes that is not a counter, and a counter line
  whose value prints with seventeen characters; \<open>mtu_state\<close> is the state they leave.
\<close>

definition mtu_line_1 :: string where
  "mtu_line_1 = ''a:'' @ replicate 1424 (CHR ''x'') @ ''|ms'' @ [CHR 0x0A]"

definition mtu_line_2 :: string where
  "mtu_line_2 = ''b:0.123456789012345|c'' @ [CHR 0x0A]"

definition mtu_state :: "dec downstream_s" where
  "mtu_state =
     (init_downstream [0x0A000001])
       \<lparr>slots := [\<lparr>buffer = ''a:'' @ replicate 1424 (CHR ''x'') @ ''|ms:'', name_length = 2,
                    length_s = 1430, counter = (0, 1), type_s = TYPE_OTHER\<rparr>,
                  \<lparr>buffer = ''b:0.123456789012345|c'' @ [CHR 0x0A], name_length = 2,
                    length_s = 22, counter = (123456789012345, 1000000000000000),
                    type_s = TYPE_COUNTER\<rparr>],
        active_buffer_length := 1452\<rparr>"

section \<open>The accounting of the active buffer\<close>

lemma sum_list_map_update:
  fixes f :: "'a \<Rightarrow> int"
  shows "i < length xs \<Longrightarrow> sum_list (map f (xs[i := y])) = sum_list (map f xs) - f (xs ! i) + f y"
proof (induction xs arbitrary: i)
  case Nil
  then show ?case by simp
next
  case (Cons x xs)
  then show ?case by (cases i) auto
qed

lemma acc_log_msg [simp]: "accounting_ok (log_msg e g) = accounting_ok g"
  by (simp add: accounting_ok_def log_msg_def)

lemma slots_log_msg [simp]: "slots (log_msg e g) = slots g"
  by (simp add: log_msg_def)

lemma acc_flush [simp]: "accounting_ok (downstream_schedule_flush g)"
  by (simp add: accounting_ok_def downstream_schedule_flush_def Let_def log_msg_def)

lemma slots_flush [simp]: "slots (downstream_schedule_flush g) = []"
  by (simp add: downstream_schedule_flush_def Let_def log_msg_def)

lemma acc_add_slot:
  assumes "accounting_ok g" and "add_slot L line nl g = Inr (i, g')"
  shows "accounting_ok g' \<and> i < length (slots g') \<and> length (slots g') = Suc (length (slots g))"
  using assms by (auto simp: add_slot_def accounting_ok_def split: if_splits)

lemma acc_set_slot_type:
  "accounting_ok (set_slot_type i t g) = accounting_ok g"
proof (cases "i < length (slots g)")
  case True
  then show ?thesis
    by (simp add: accounting_ok_def set_slot_type_def sum_list_map_update)
next
  case False
  then show ?thesis by (simp add: accounting_ok_def set_slot_type_def list_update_beyond)
qed

lemma length_set_slot_type [simp]: "length (slots (set_slot_type i t g)) = length (slots g)"
  by (simp add: set_slot_type_def)

lemma acc_store_counter:
  assumes "accounting_ok g" and "i < length (slots g)"
  shows "accounting_ok (store_counter L nl i bp dl tp g)"
  using assms
  by (auto simp: store_counter_def accounting_ok_def Let_def sum_list_map_update log_msg_def
      split: prod.splits)

lemma length_store_counter [simp]:
  "length (slots (store_counter L nl i bp dl tp g)) = length (slots g)"
  by (auto simp: store_counter_def Let_def log_msg_def split: prod.splits)

lemma acc_store_other:
  assumes "accounting_ok g" and "i < length (slots g)"
  shows "accounting_ok (store_other i bp dl g)"
  using assms by (simp add: store_other_def accounting_ok_def Let_def sum_list_map_update)

lemma length_store_other [simp]: "length (slots (store_other i bp dl g)) = length (slots g)"
  by (simp add: store_other_def Let_def)

lemma acc_make_room:
  assumes "accounting_ok g" and "i < length (slots g)"
    and "make_room L line nl i mt dl g = Inr (j, g')"
  shows "accounting_ok g' \<and> j < length (slots g')"
proof (cases "needs_flush mt dl g")
  case True
  with assms(3) obtain g2 where a: "add_slot L line nl (downstream_schedule_flush g) = Inr (j, g2)"
    and g': "g' = set_slot_type j mt g2"
    by (auto simp: make_room_def split: sum.splits)
  from acc_add_slot[OF acc_flush a] show ?thesis
    by (simp add: g' acc_set_slot_type)
next
  case False
  with assms show ?thesis by (simp add: make_room_def)
qed

lemma acc_store_group:
  "accounting_ok g \<Longrightarrow> i < length (slots g) \<Longrightarrow> accounting_ok (store_group L nl i bp dl tp mt g)"
  by (simp add: store_group_def acc_store_counter acc_store_other)

lemma length_store_group [simp]:
  "length (slots (store_group L nl i bp dl tp mt g)) = length (slots g)"
  by (simp add: store_group_def)

lemma acc_insert_group:
  assumes "accounting_ok g" and "i < length (slots g)"
    and "insert_group L line nl i bp dl g = Inr (i', g')"
  shows "accounting_ok g' \<and> i' < length (slots g')"
proof (cases "memchr bp (CHR ''|'') dl")
  case None
  with assms show ?thesis by (auto simp: insert_group_def)
next
  case (Some tp)
  define mt where "mt = metric_type_of bp tp"
  define g1 where "g1 = (if type_s (slots g ! i) = TYPE_UNKNOWN then set_slot_type i mt g else g)"
  have g1: "accounting_ok g1" "i < length (slots g1)"
    using assms by (auto simp: g1_def acc_set_slot_type)
  show ?thesis
  proof (cases "type_s (slots g ! i) \<noteq> TYPE_UNKNOWN \<and> type_s (slots g ! i) \<noteq> mt")
    case True
    with assms Some show ?thesis by (auto simp: insert_group_def mt_def Let_def)
  next
    case False
    have eq: "insert_group L line nl i bp dl g =
        (case make_room L line nl i mt dl g1 of
           Inl e \<Rightarrow> Inl e
         | Inr (j, g3) \<Rightarrow> Inr (j, store_group L nl j bp dl tp mt g3))"
      unfolding insert_group_def Some option.case Let_def mt_def[symmetric] g1_def[symmetric]
      using False by (simp only: if_False)
    with assms(3) obtain j g3 where mr: "make_room L line nl i mt dl g1 = Inr (j, g3)"
      and res: "i' = j" "g' = store_group L nl j bp dl tp mt g3"
      by (auto split: sum.splits)
    from acc_make_room[OF g1 mr] show ?thesis
      by (simp add: res acc_store_group)
  qed
qed


lemma insert_loop_None:
  "memchr bp (CHR '':'') n = None \<Longrightarrow>
   insert_loop L line nl i bp n g = insert_group L line nl i bp n g"
  by (subst insert_loop.simps) simp

lemma insert_loop_Some:
  "memchr bp (CHR '':'') n = Some d \<Longrightarrow>
   insert_loop L line nl i bp n g =
     (case insert_group L line nl i bp (d + 1) g of
        Inl e \<Rightarrow> Inl e
      | Inr (j, g') \<Rightarrow> insert_loop L line nl j (drop (d + 1) bp) (n - (d + 1)) g')"
  by (subst insert_loop.simps) simp

lemma acc_insert_loop:
  "accounting_ok g \<Longrightarrow> i < length (slots g) \<Longrightarrow> insert_loop L line nl i bp n g = Inr (i', g')
    \<Longrightarrow> accounting_ok g' \<and> i' < length (slots g')"
proof (induction n arbitrary: i bp g rule: less_induct)
  case (less n)
  show ?case
  proof (cases "memchr bp (CHR '':'') n")
    case None
    with less.prems(3) have "insert_group L line nl i bp n g = Inr (i', g')"
      by (simp add: insert_loop_None)
    from acc_insert_group[OF less.prems(1,2) this] show ?thesis .
  next
    case (Some d)
    from less.prems(3) obtain j g1 where
      ig: "insert_group L line nl i bp (d + 1) g = Inr (j, g1)"
      and rest: "insert_loop L line nl j (drop (d + 1) bp) (n - (d + 1)) g1 = Inr (i', g')"
      by (auto simp: insert_loop_Some[OF Some] split: sum.splits)
    from acc_insert_group[OF less.prems(1,2) ig] have g1: "accounting_ok g1" "j < length (slots g1)"
      by simp_all
    from memchr_less[OF Some] have "n - (d + 1) < n" by simp
    from less.IH[OF this g1 rest] show ?thesis .
  qed
qed


lemma slot_index_bounds:
  "slot_index ss line nl k = Some i \<Longrightarrow> k \<le> i \<and> i < k + length ss"
proof (induction ss arbitrary: k)
  case Nil
  then show ?case by simp
next
  case (Cons s ss)
  show ?case
  proof (cases "name_length s = nl \<and> take (nat nl) line = take (nat nl) (buffer s)")
    case True
    with Cons.prems show ?thesis by simp
  next
    case False
    with Cons.prems have "slot_index ss line nl (Suc k) = Some i" by auto
    from Cons.IH[OF this] show ?thesis by simp
  qed
qed

lemma acc_find_slot:
  assumes "accounting_ok g" and "find_slot L line nl g = Inr (i, g')"
  shows "accounting_ok g' \<and> i < length (slots g')"
proof (cases "slot_index (slots g) line nl 0")
  case None
  define g0 where "g0 = (if active_buffer_length g + nl > DOWNSTREAM_BUF_SIZE
             then downstream_schedule_flush g else g)"
  have "accounting_ok g0" using assms(1) by (simp add: g0_def)
  moreover from assms(2) None have "add_slot L line nl g0 = Inr (i, g')"
    by (simp add: find_slot_def g0_def)
  ultimately show ?thesis using acc_add_slot by blast
next
  case (Some j)
  with assms slot_index_bounds[OF Some] show ?thesis
    by (auto simp: find_slot_def)
qed

lemma acc_process_data_line:
  assumes "accounting_ok g" and "process_data_line L line len g = Inr g'"
  shows "accounting_ok g'"
proof (cases "memchr line (CHR '':'') len")
  case None
  with assms show ?thesis by (auto simp: process_data_line_def)
next
  case (Some c)
  from assms(2) Some obtain i g1 j where
    fs: "find_slot L line (int c + 1) g = Inr (i, g1)"
    and iv: "insert_values_into_slot L i line c len g1 = Inr (j, g')"
    by (auto simp: process_data_line_def split: sum.splits)
  from acc_find_slot[OF assms(1) fs] have "accounting_ok g1" "i < length (slots g1)"
    by simp_all
  with iv acc_insert_loop show ?thesis
    unfolding insert_values_into_slot_def by blast
qed

lemma udp_lines_None:
  "memchr bp (CHR 0x0A) n = None \<Longrightarrow> udp_lines L bp n g = Inr g"
  by (subst udp_lines.simps) simp

lemma udp_lines_Some:
  "memchr bp (CHR 0x0A) n = Some d \<Longrightarrow>
   udp_lines L bp n g =
     (case (if d + 1 > 6 \<and> int (d + 1) < DOWNSTREAM_BUF_SIZE - MAX_COUNTER_LENGTH
            then process_data_line L bp (d + 1) g
            else Inr (log_msg (InvalidLength (d + 1 - 1)) g)) of
        Inl e \<Rightarrow> Inl e
      | Inr g' \<Rightarrow> udp_lines L (drop (d + 1) bp) (n - (d + 1)) g')"
  by (subst udp_lines.simps) (simp only: option.case Let_def)

lemma acc_udp_lines:
  "accounting_ok g \<Longrightarrow> udp_lines L bp n g = Inr g' \<Longrightarrow> accounting_ok g'"
proof (induction n arbitrary: bp g rule: less_induct)
  case (less n)
  show ?case
  proof (cases "memchr bp (CHR 0x0A) n")
    case None
    with less.prems show ?thesis by (simp add: udp_lines_None)
  next
    case (Some d)
    define r where "r = (if d + 1 > 6 \<and> int (d + 1) < DOWNSTREAM_BUF_SIZE - MAX_COUNTER_LENGTH
            then process_data_line L bp (d + 1) g
            else Inr (log_msg (InvalidLength (d + 1 - 1)) g))"
    from less.prems(2) obtain g1 where r: "r = Inr g1"
      and rest: "udp_lines L (drop (d + 1) bp) (n - (d + 1)) g1 = Inr g'"
      unfolding udp_lines_Some[OF Some] r_def[symmetric] by (auto split: sum.splits)
    have "accounting_ok g1"
    proof (cases "d + 1 > 6 \<and> int (d + 1) < DOWNSTREAM_BUF_SIZE - MAX_COUNTER_LENGTH")
      case True
      with r have "process_data_line L bp (d + 1) g = Inr g1" by (simp add: r_def)
      from acc_process_data_line[OF less.prems(1) this] show ?thesis .
    next
      case False
      with r less.prems(1) show ?thesis by (auto simp: r_def)
    qed
    moreover from memchr_less[OF Some] have "n - (d + 1) < n" by simp
    ultimately show ?thesis using less.IH rest by blast
  qed
qed

lemma acc_udp_read_cb:
  "accounting_ok g \<Longrightarrow> udp_read_cb L pkt g = Inr g' \<Longrightarrow> accounting_ok g'"
  unfolding udp_read_cb_def Let_def
  by (auto split: if_splits dest: acc_udp_lines)

lemma acc_flush_timer: "accounting_ok g \<Longrightarrow> accounting_ok (downstream_flush_timer_cb g)"
  by (simp add: downstream_flush_timer_cb_def)

lemma set_current_slots:
  "set_current_downstream_host g = Inr g' \<Longrightarrow>
   slots g' = slots g \<and> active_buffer_length g' = active_buffer_length g"
  by (auto simp: set_current_downstream_host_def split: option.splits if_splits)

lemma flush_cb_slots:
  "downstream_flush_cb ok g = Inr g' \<Longrightarrow>
   slots g' = slots g \<and> active_buffer_length g' = active_buffer_length g"
  by (auto simp: downstream_flush_cb_def Let_def log_msg_def
      split: sum.splits option.splits if_splits dest!: set_current_slots)

lemma update_downstreams_slots:
  "update_downstreams g = Inr g' \<Longrightarrow>
   slots g' = slots g \<and> active_buffer_length g' = active_buffer_length g"
  by (auto simp: update_downstreams_def split: sum.splits if_splits)

lemma get_dns_data_slots:
  "slots (get_dns_data a g) = slots g \<and>
   active_buffer_length (get_dns_data a g) = active_buffer_length g"
  by (simp add: get_dns_data_def Let_def log_msg_def)

lemma acc_step: "step L g g' \<Longrightarrow> accounting_ok g \<Longrightarrow> accounting_ok g'"
proof (induction rule: step.induct)
  case (udp_read pkt g g')
  then show ?case using acc_udp_read_cb by blast
next
  case (flush_timer g)
  then show ?case by (rule acc_flush_timer)
next
  case (flush_writable g ok g')
  with flush_cb_slots[OF flush_writable(2)] show ?case by (simp add: accounting_ok_def)
next
  case (update g g')
  with update_downstreams_slots[OF update(1)] show ?case by (simp add: accounting_ok_def)
next
  case (health g hs')
  then show ?case by (simp add: accounting_ok_def)
next
  case (refresh g h_addr_list)
  then show ?case by (simp add: accounting_ok_def get_dns_data_slots)
qed

lemma acc_init: "accounting_ok (init_downstream a)"
  by (simp add: accounting_ok_def init_downstream_def get_dns_data_slots)

lemma example_window_reachable: "reachable dec_libc example_window"
proof -
  have "udp_read_cb dec_libc ''aa:1|c\<newline>b:250|ms\<newline>'' (init_downstream [0x0A000001])
      = Inr example_window"
    by code_simp
  then have "step dec_libc (init_downstream [0x0A000001]) example_window"
    by (intro step.udp_read) simp_all
  moreover have "reachable dec_libc (init_downstream [0x0A000001])"
    by (rule reachable.start) simp
  ultimately show ?thesis by (rule reachable.next_step[rotated])
qed

text \<open>
  Claim C3: between any two callbacks of the reactor the accounting integer
  \<^verbatim>\<open>active_buffer_length\<close> equals the sum of \<^verbatim>\<open>length\<close> (name and payload) over the used
  slots: it holds after initialisation and every callback that returns keeps it.
\<close>

theorem accounting_invariant:
  "reachable L g \<Longrightarrow> active_buffer_length g = sum_list (map length_s (slots g))"
proof (induction rule: reachable.induct)
  case (start h_addr_list)
  show ?case using acc_init[of h_addr_list] by (simp add: accounting_ok_def)
next
  case (next_step g g')
  with acc_step[OF next_step(2)] show ?case by (simp add: accounting_ok_def)
qed

theorem accounting_invariant_witness:
  "reachable dec_libc example_window \<and>
   active_buffer_length example_window = 16 \<and>
   sum_list (map length_s (slots example_window)) = 16"
  using accounting_invariant[OF example_window_reachable] example_window_reachable
  by (simp add: example_window_def)

section \<open>Line lengths\<close>

lemma memchr_first:
  "c \<notin> set body \<Longrightarrow> length body < n \<Longrightarrow> memchr (body @ c # rest) c n = Some (length body)"
proof (induction body arbitrary: n)
  case Nil
  then show ?case by simp
next
  case (Cons x xs)
  then show ?case by (cases n) auto
qed

lemma udp_lines_line:
  assumes "CHR 0x0A \<notin> set body" and "length body < n"
  shows "udp_lines L (body @ CHR 0x0A # rest) n g =
     (if 7 \<le> length body + 1 \<and> length body + 1 \<le> 1431
      then (case process_data_line L (body @ CHR 0x0A # rest) (length body + 1) g of
              Inl e \<Rightarrow> Inl e
            | Inr g' \<Rightarrow> udp_lines L rest (n - (length body + 1)) g')
      else udp_lines L rest (n - (length body + 1)) (log_msg (InvalidLength (length body)) g))"
proof -
  have m: "memchr (body @ CHR 0x0A # rest) (CHR 0x0A) n = Some (length body)"
    using assms by (rule memchr_first)
  have d: "drop (length body + 1) (body @ CHR 0x0A # rest) = rest"
    by simp
  define c where "c \<longleftrightarrow>
    length body + 1 > 6 \<and> int (length body + 1) < DOWNSTREAM_BUF_SIZE - MAX_COUNTER_LENGTH"
  have ceq: "(7 \<le> length body + 1 \<and> length body + 1 \<le> 1431) = c"
    by (auto simp: c_def)
  show ?thesis
    unfolding udp_lines_Some[OF m] d c_def[symmetric] ceq
    by (cases c) simp_all
qed

text \<open>
  Claim C5, as amended: a line (the bytes up to and including the newline) is handed to
  \<^verbatim>\<open>process_data_line\<close> if and only if its length is at least 7 and at most 1431; any
  other line is dropped with the error message about its length and leaves the slot table
  and the accounting as they are.
\<close>

theorem line_length_bounds:
  assumes "CHR 0x0A \<notin> set body" and "length body < n"
  shows "udp_lines L (body @ CHR 0x0A # rest) n g =
     (if 7 \<le> length body + 1 \<and> length body + 1 \<le> 1431
      then (case process_data_line L (body @ CHR 0x0A # rest) (length body + 1) g of
              Inl e \<Rightarrow> Inl e
            | Inr g' \<Rightarrow> udp_lines L rest (n - (length body + 1)) g')
      else udp_lines L rest (n - (length body + 1)) (log_msg (InvalidLength (length body)) g))
   \<and> slots (log_msg (InvalidLength (length body)) g) = slots g
   \<and> active_buffer_length (log_msg (InvalidLength (length body)) g) = active_buffer_length g"
  by (intro conjI udp_lines_line[OF assms]) (simp_all add: log_msg_def)

theorem line_length_bounds_witness:
  "udp_lines dec_libc ''aa:1|c\<newline>'' 7 (init_downstream [0x0A000001]) =
     Inr ((init_downstream [0x0A000001])
       \<lparr>active_buffer_length := 7,
        slots := [\<lparr>buffer = ''aa:1|c\<newline>'', name_length = 3, length_s = 7,
                    counter = (1, 1), type_s = TYPE_COUNTER\<rparr>]\<rparr>)"
proof -
  let ?g = "(init_downstream [0x0A000001]) :: dec downstream_s"
  let ?g' = "?g\<lparr>active_buffer_length := 7,
        slots := [\<lparr>buffer = ''aa:1|c\<newline>'', name_length = 3, length_s = 7,
                    counter = (1, 1), type_s = TYPE_COUNTER\<rparr>]\<rparr>"
  have e: "process_data_line dec_libc (''aa:1|c'' @ CHR 0x0A # []) (length ''aa:1|c'' + 1) ?g
      = Inr ?g'"
    by code_simp
  have r: "udp_lines dec_libc [] (7 - (length ''aa:1|c'' + 1)) ?g' = Inr ?g'"
    by (simp add: udp_lines_None)
  have c: "7 \<le> length ''aa:1|c'' + 1 \<and> length ''aa:1|c'' + 1 \<le> 1431" by simp
  have n: "CHR 0x0A \<notin> set ''aa:1|c''" by simp
  have a: "length ''aa:1|c'' < 7" by simp
  from line_length_bounds[OF n a, of dec_libc "[]" ?g]
  have "udp_lines dec_libc (''aa:1|c'' @ CHR 0x0A # []) 7 ?g =
     (if 7 \<le> length ''aa:1|c'' + 1 \<and> length ''aa:1|c'' + 1 \<le> 1431
      then (case process_data_line dec_libc (''aa:1|c'' @ CHR 0x0A # []) (length ''aa:1|c'' + 1) ?g of
              Inl e \<Rightarrow> Inl e
            | Inr g' \<Rightarrow> udp_lines dec_libc [] (7 - (length ''aa:1|c'' + 1)) g')
      else udp_lines dec_libc [] (7 - (length ''aa:1|c'' + 1))
             (log_msg (InvalidLength (length ''aa:1|c'')) ?g))"
    by (rule conjunct1)
  then have "udp_lines dec_libc (''aa:1|c'' @ CHR 0x0A # []) 7 ?g = Inr ?g'"
    by (simp only: c simp_thms if_True e sum.case r)
  then show ?thesis by simp
qed

text \<open>
  Claim C5 as stated takes a line of \<open>1450 - 18 = 1432\<close> bytes to be processed; the code
  drops it.
\<close>

theorem line_1432_dropped:
  "length line_1432 = 1432 \<and>
   udp_read_cb dec_libc line_1432 (init_downstream [0x0A000001]) =
     Inr (log_msg (InvalidLength 1431) (init_downstream [0x0A000001]))"
proof -
  let ?body = "''a:'' @ replicate 1426 (CHR ''x'') @ ''|ms''"
  have l: "line_1432 = ?body @ CHR 0x0A # []"
    by (simp add: line_1432_def)
  have n: "CHR 0x0A \<notin> set ?body" by simp
  have len: "length ?body = 1431" by simp
  have a: "length ?body < 1432" by simp
  have b: "\<not> (7 \<le> length ?body + 1 \<and> length ?body + 1 \<le> 1431)" by simp
  have "udp_lines dec_libc (?body @ CHR 0x0A # []) 1432 (init_downstream [0x0A000001]) =
      udp_lines dec_libc [] (1432 - (length ?body + 1))
        (log_msg (InvalidLength (length ?body)) (init_downstream [0x0A000001]))"
    unfolding udp_lines_line[OF n a] using b by (simp only: if_False)
  then have "udp_lines dec_libc (?body @ CHR 0x0A # []) 1432 (init_downstream [0x0A000001]) =
      Inr (log_msg (InvalidLength 1431) (init_downstream [0x0A000001]))"
    by (simp only: len udp_lines_None memchr.simps)
  then show ?thesis
    unfolding udp_read_cb_def l[symmetric] by (simp add: line_1432_def Let_def)
qed

section \<open>Types of groups and of slots\<close>


lemma nth_update_field:
  "f y = f (xs ! i) \<Longrightarrow> f (xs[i := y] ! j) = f (xs ! j)"
  by (cases "i < length xs"; cases "j = i") (simp_all add: list_update_beyond)

lemma type_store_counter:
  "type_s (slots (store_counter L nl i bp dl tp g) ! j) = type_s (slots g ! j)"
  by (auto simp: store_counter_def Let_def log_msg_def nth_update_field split: prod.splits)

lemma type_store_other:
  "type_s (slots (store_other i bp dl g) ! j) = type_s (slots g ! j)"
  by (simp add: store_other_def Let_def nth_update_field)

lemma type_store_group [simp]:
  "type_s (slots (store_group L nl i bp dl tp mt g) ! j) = type_s (slots g ! j)"
  by (simp add: store_group_def type_store_counter type_store_other)



lemma insert_group_accepted:
  assumes bar: "memchr bp (CHR ''|'') dl = Some tp"
    and ty: "type_s (slots g ! slot_idx) = TYPE_UNKNOWN \<or>
             type_s (slots g ! slot_idx) = metric_type_of bp tp"
    and res: "insert_group L line nl slot_idx bp dl g = Inr (i, g')"
  obtains g3 where
    "make_room L line nl slot_idx (metric_type_of bp tp) dl
       (if type_s (slots g ! slot_idx) = TYPE_UNKNOWN
        then set_slot_type slot_idx (metric_type_of bp tp) g else g) = Inr (i, g3)"
    and "g' = store_group L nl i bp dl tp (metric_type_of bp tp) g3"
proof -
  from ty have "\<not> (type_s (slots g ! slot_idx) \<noteq> TYPE_UNKNOWN \<and>
      type_s (slots g ! slot_idx) \<noteq> metric_type_of bp tp)"
    by auto
  with res bar that show thesis
    unfolding insert_group_def Let_def by (auto split: sum.splits)
qed








section \<open>Selection of the downstream host\<close>

lemma visited_Suc:
  "0 < m \<Longrightarrow> visited m k (Suc n) = ((k + 1) mod m) # visited m ((k + 1) mod m) n"
proof -
  assume "0 < m"
  have "[1..<Suc (Suc n)] = 1 # [Suc 1..<Suc (Suc n)]"
    by (rule upt_conv_Cons) simp
  then have "[1..<Suc (Suc n)] = 1 # map Suc [1..<Suc n]"
    by (simp only: map_Suc_upt)
  then have "visited m k (Suc n) = ((k + 1) mod m) # map (\<lambda>j. (k + Suc j) mod m) [1..<Suc n]"
    by (simp add: visited_def comp_def del: upt_Suc)
  moreover have "(k + Suc j) mod m = ((k + 1) mod m + j) mod m" for j
    by (simp add: mod_add_left_eq)
  ultimately show ?thesis by (simp add: visited_def del: upt_Suc)
qed

lemma host_index_less: "host_index hs p = Some k \<Longrightarrow> k < length hs"
  by (induction hs arbitrary: k) (auto split: if_splits)

lemma select_loop_spec:
  "k < length hs \<Longrightarrow> select_loop hs n k = first_alive_after hs k n"
proof (induction n arbitrary: k)
  case 0
  then show ?case by (simp add: first_alive_after_def visited_def)
next
  case (Suc n)
  let ?k' = "(k + 1) mod length hs"
  from Suc.prems have m: "0 < length hs" by (cases hs) simp_all
  have k': "(if Suc k < length hs then Suc k else 0) = ?k'"
    using Suc.prems by (auto simp: mod_Suc le_less_Suc_eq not_less)
  have lt: "?k' < length hs" using m by simp
  show ?case
    using Suc.IH[OF lt] k'
    by (simp add: first_alive_after_def visited_Suc[OF m] Let_def)
qed

text \<open>
  From a cursor that is \<^verbatim>\<open>NULL\<close> or points into the host list, selection advances at most
  \<^verbatim>\<open>downstream_host_num\<close> positions, wrapping from the last host to the head, and makes the
  first host on the way whose alive bit is set the current one; when none is found the
  current host becomes \<^verbatim>\<open>NULL\<close> and the writable callback logs the error and stops its
  watcher, leaving the flush index, the buffer lengths and the datagrams sent as they are.
\<close>

lemma selection_from_valid_cursor:
  assumes hosts: "downstream_hosts g \<noteq> []"
    and cur: "cursor_index g = Some k"
  shows "set_current_downstream_host g =
           Inr (g\<lparr>current_downstream_host :=
                    first_alive_after (downstream_hosts g) k (downstream_host_num g)\<rparr>)
     \<and> (first_alive_after (downstream_hosts g) k (downstream_host_num g) = None \<longrightarrow>
          downstream_flush_cb ok g =
            Inr (g\<lparr>current_downstream_host := None, flush_watcher := False,
                   log_out := log_out g @ [NoDownstreamHosts]\<rparr>))"
proof -
  have k: "k < length (downstream_hosts g)"
    using hosts cur by (auto simp: cursor_index_def split: option.splits dest: host_index_less)
  have 1: "set_current_downstream_host g =
           Inr (g\<lparr>current_downstream_host :=
                    first_alive_after (downstream_hosts g) k (downstream_host_num g)\<rparr>)"
    using hosts cur select_loop_spec[OF k]
    by (auto simp: set_current_downstream_host_def cursor_index_def split: option.splits)
  show ?thesis
    by (auto simp: 1 downstream_flush_cb_def log_msg_def)
qed

lemma selection_from_valid_cursor_example:
  "set_current_downstream_host two_hosts = Inr (two_hosts\<lparr>current_downstream_host := None\<rparr>)
   \<and> downstream_flush_cb True two_hosts =
       Inr (two_hosts\<lparr>current_downstream_host := None, flush_watcher := False,
                   log_out := log_out two_hosts @ [NoDownstreamHosts]\<rparr>)"
proof -
  have hosts: "downstream_hosts two_hosts \<noteq> []" by (simp add: two_hosts_def)
  have cur: "cursor_index two_hosts = Some 0" by code_simp
  have f: "first_alive_after (downstream_hosts two_hosts) 0 (downstream_host_num two_hosts) = None"
    by code_simp
  from selection_from_valid_cursor[OF hosts cur, of True] f show ?thesis by simp
qed

text \<open>
  Without hosts and with the cursor \<^verbatim>\<open>NULL\<close>, as before the first update, selection does
  nothing and the writable callback stops its watcher.
\<close>

lemma selection_without_hosts:
  assumes "downstream_hosts g = []" and "current_downstream_host g = None"
  shows "set_current_downstream_host g = Inr g
     \<and> downstream_flush_cb ok g =
          Inr (g\<lparr>flush_watcher := False, log_out := log_out g @ [NoDownstreamHosts]\<rparr>)"
  using assms by (simp add: set_current_downstream_host_def downstream_flush_cb_def log_msg_def)

text \<open>
  The state \<open>head_removed\<close> is reached by two updates, and \<open>head_removed_sending\<close> from it
  by a datagram and the flush timer.
\<close>

lemma head_removed_reachable: "reachable dec_libc head_removed"
proof -
  let ?g0 = "init_downstream [0x0A000001, 0x0A000002] :: dec downstream_s"
  let ?g1 = "?g0\<lparr>downstream_hosts :=
          [\<lparr>host_ptr = 2, s_addr = 0x0A000002, fd = - 1, active = False, alive = False\<rparr>,
           \<lparr>host_ptr = 1, s_addr = 0x0A000001, fd = - 1, active = False, alive = False\<rparr>],
        in_addr_new_ready := False\<rparr>"
  have r0: "reachable dec_libc ?g0"
    by (rule reachable.start) simp
  have "update_downstreams ?g0 = Inr ?g1" by code_simp
  then have "step dec_libc ?g0 ?g1" by (rule step.update)
  with r0 have r1: "reachable dec_libc ?g1" by (rule reachable.next_step)
  have "\<not> in_addr_new_ready ?g1" by simp
  then have "step dec_libc ?g1 (get_dns_data [0x0A000001] ?g1)" by (rule step.refresh)
  with r1 have r2: "reachable dec_libc (get_dns_data [0x0A000001] ?g1)"
    by (rule reachable.next_step)
  have "update_downstreams (get_dns_data [0x0A000001] ?g1) = Inr head_removed" by code_simp
  then have "step dec_libc (get_dns_data [0x0A000001] ?g1) head_removed" by (rule step.update)
  with r2 show ?thesis by (rule reachable.next_step)
qed

lemma head_removed_sending_reachable: "reachable dec_libc head_removed_sending"
proof -
  let ?g = "head_removed
       \<lparr>active_buffer_length := 7,
        slots := [\<lparr>buffer = ''aa:1|c\<newline>'', name_length = 3, length_s = 7,
                    counter = (1, 1), type_s = TYPE_COUNTER\<rparr>]\<rparr>"
  have "udp_read_cb dec_libc ''aa:1|c\<newline>'' head_removed = Inr ?g" by code_simp
  then have "step dec_libc head_removed ?g" by (intro step.udp_read) simp_all
  with head_removed_reachable have r: "reachable dec_libc ?g" by (rule reachable.next_step)
  have "downstream_flush_timer_cb ?g = head_removed_sending" by code_simp
  with step.flush_timer[of dec_libc ?g] have "step dec_libc ?g head_removed_sending" by simp
  with r show ?thesis by (rule reachable.next_step)
qed

text \<open>
  Claim C8 fails on the code: a send step can start from a cursor that points to a freed
  host. When \<^verbatim>\<open>update_downstreams\<close> removes the head of the list, line 659 sets the cursor
  to the head before line 661 unlinks it and line 668 frees it. At the next send step
  \<^verbatim>\<open>set_current_downstream_host\<close> reads \<^verbatim>\<open>host->next\<close> of that node (line 183): the
  selection of the claim is not carried out, and the model returns \<open>UseAfterFree\<close>.
\<close>

theorem selection_reads_freed_host:
  "reachable dec_libc head_removed
   \<and> current_downstream_host head_removed = Some 2
   \<and> map host_ptr (downstream_hosts head_removed) = [1]
   \<and> cursor_index head_removed = None
   \<and> set_current_downstream_host head_removed = Inl UseAfterFree
   \<and> reachable dec_libc head_removed_sending
   \<and> flush_watcher head_removed_sending
   \<and> downstream_flush_cb True head_removed_sending = Inl UseAfterFree"
proof -
  have "current_downstream_host head_removed = Some 2
   \<and> map host_ptr (downstream_hosts head_removed) = [1]
   \<and> cursor_index head_removed = None
   \<and> set_current_downstream_host head_removed = Inl UseAfterFree
   \<and> flush_watcher head_removed_sending
   \<and> downstream_flush_cb True head_removed_sending = Inl UseAfterFree"
    by code_simp
  with head_removed_reachable head_removed_sending_reachable show ?thesis by simp
qed

section \<open>Reconciliation with an unchanged address set\<close>

lemma addr_index_Some:
  "addr_index new a n = Some i \<Longrightarrow> i < n \<and> i < length new \<and> new ! i = a"
proof (induction new arbitrary: n i)
  case Nil
  then show ?case by simp
next
  case (Cons x xs)
  then show ?case by (cases n) (auto split: if_splits)
qed

lemma addr_index_None:
  "addr_index new a n = None \<Longrightarrow> a \<notin> set (take n new)"
proof (induction new arbitrary: n)
  case Nil
  then show ?case by simp
next
  case (Cons x xs)
  then show ?case by (cases n) (auto split: if_splits)
qed

lemma mset_take_update:
  "i < n \<Longrightarrow> i < length xs \<Longrightarrow>
   mset (take n (xs[i := y])) + {#xs ! i#} = mset (take n xs) + {#y#}"
proof (induction xs arbitrary: i n)
  case Nil
  then show ?case by simp
next
  case (Cons x xs)
  show ?case
  proof (cases n)
    case 0
    with Cons.prems show ?thesis by simp
  next
    case (Suc m)
    show ?thesis
    proof (cases i)
      case 0
      then show ?thesis by (simp add: Suc)
    next
      case (Suc j)
      with Cons.prems \<open>n = Suc m\<close> have "j < m" "j < length xs" by simp_all
      from Cons.IH[OF this] show ?thesis by (simp add: Suc \<open>n = Suc m\<close>)
    qed
  qed
qed

lemma update_hosts_same:
  assumes "mset (take n new) = mset (map s_addr rest) + replicate_mset z 0"
  shows "\<exists>new'. update_hosts rest n d (kept, new, cur) = Inr (kept @ rest, new', cur)
           \<and> length new' = length new \<and> drop n new' = drop n new
           \<and> set (take n new') \<subseteq> {0}"
  using assms
proof (induction rest arbitrary: kept new z d)
  case Nil
  then have "set_mset (mset (take n new)) \<subseteq> {0}"
    by (auto split: if_splits)
  then show ?case by simp
next
  case (Cons h rest)
  have "s_addr h \<in># mset (take n new)"
    by (simp add: Cons.prems)
  then have "s_addr h \<in> set (take n new)" by simp
  with addr_index_None obtain i where i: "addr_index new (s_addr h) n = Some i"
    by (cases "addr_index new (s_addr h) n") auto
  from addr_index_Some[OF i] have il: "i < n" "i < length new" and ia: "new ! i = s_addr h"
    by simp_all
  from mset_take_update[OF il, where y = 0] ia
  have "mset (take n (new[i := 0])) + {#s_addr h#} = mset (take n new) + {#0#}" by simp
  with Cons.prems have "mset (take n (new[i := 0])) =
      mset (map s_addr rest) + replicate_mset (Suc z) 0"
    by (simp add: ac_simps)
  from Cons.IH[OF this, of False "kept @ [h]"] obtain new' where
    "update_hosts rest n False (kept @ [h], new[i := 0], cur) = Inr ((kept @ [h]) @ rest, new', cur)"
    "length new' = length (new[i := 0])" "drop n new' = drop n (new[i := 0])"
    "set (take n new') \<subseteq> {0}"
    by blast
  with i il show ?case by (simp add: drop_update_cancel)
qed

lemma add_hosts_zeros: "set as \<subseteq> {0} \<Longrightarrow> add_hosts as hs = hs"
  by (induction as arbitrary: hs) auto

lemma zeros_replicate: "set xs \<subseteq> {0::'a::zero} \<Longrightarrow> xs = replicate (length xs) 0"
  by (induction xs) auto

text \<open>
  Claim C9, as amended: when the first \<^verbatim>\<open>downstream_host_num\<close> entries of the new address
  array hold exactly the addresses of the hosts, each as often as hosts have it,
  reconciliation removes no host, adds none, and leaves every host (pointer, address,
  alive bit, probe descriptor and watcher) and the cursor as they are; it sets the entries
  it matched to zero and clears the ready flag.
\<close>

theorem reconcile_same_addresses:
  assumes ready: "in_addr_new_ready g"
    and len: "downstream_host_num g \<le> length (in_addr_new g)"
    and same: "mset (take (downstream_host_num g) (in_addr_new g)) =
               mset (map s_addr (downstream_hosts g))"
  shows "update_downstreams g =
           Inr (g\<lparr>in_addr_new := replicate (downstream_host_num g) 0 @
                                    drop (downstream_host_num g) (in_addr_new g),
                  in_addr_new_ready := False\<rparr>)"
proof -
  let ?n = "downstream_host_num g"
  from same have "mset (take ?n (in_addr_new g)) =
      mset (map s_addr (downstream_hosts g)) + replicate_mset 0 0"
    by simp
  from update_hosts_same[OF this, of False "[]" "current_downstream_host g"]
  obtain new' where u: "update_hosts (downstream_hosts g) ?n False
        ([], in_addr_new g, current_downstream_host g) =
        Inr (downstream_hosts g, new', current_downstream_host g)"
    and l: "length new' = length (in_addr_new g)"
    and d: "drop ?n new' = drop ?n (in_addr_new g)"
    and z: "set (take ?n new') \<subseteq> {0}"
    by auto
  from zeros_replicate[OF z] len l have "take ?n new' = replicate ?n 0" by simp
  then have "new' = replicate ?n 0 @ drop ?n (in_addr_new g)"
    using d append_take_drop_id[of ?n new'] by simp
  with u z ready show ?thesis
    by (simp add: update_downstreams_def add_hosts_zeros)
qed

theorem reconcile_same_addresses_witness:
  "update_downstreams one_host_same =
     Inr (one_host_same\<lparr>in_addr_new := replicate MAX_DOWNSTREAM_NUM 0,
                         in_addr_new_ready := False\<rparr>)"
proof -
  have ready: "in_addr_new_ready one_host_same" by code_simp
  have len: "downstream_host_num one_host_same \<le> length (in_addr_new one_host_same)"
    by code_simp
  have same: "mset (take (downstream_host_num one_host_same) (in_addr_new one_host_same)) =
               mset (map s_addr (downstream_hosts one_host_same))"
    by (simp add: one_host_same_def init_downstream_def get_dns_data_def Let_def)
  have n: "downstream_host_num one_host_same = 1"
    by (simp add: one_host_same_def init_downstream_def get_dns_data_def Let_def)
  have d: "drop 1 (in_addr_new one_host_same) = replicate 31 0"
    by (simp add: one_host_same_def init_downstream_def get_dns_data_def Let_def)
  have "replicate 1 (0::32 word) @ replicate 31 0 = replicate MAX_DOWNSTREAM_NUM 0"
    by (simp add: numeral_eq_Suc)
  with reconcile_same_addresses[OF ready len same] n d show ?thesis by simp
qed

text \<open>
  Claim C9 as stated covers every array that contains the same addresses; when the array
  names the address of the only host twice, a second host is allocated for it.
\<close>

theorem reconcile_duplicate_allocates:
  "update_downstreams one_host =
     Inr (one_host\<lparr>downstream_hosts :=
            [\<lparr>host_ptr = 2, s_addr = 0x0A000001, fd = - 1, active = False, alive = False\<rparr>,
             \<lparr>host_ptr = 1, s_addr = 0x0A000001, fd = 7, active = True, alive = True\<rparr>],
          in_addr_new := 0 # 0x0A000001 # replicate 30 0,
          in_addr_new_ready := False\<rparr>)"
  by code_simp

section \<open>A stopped writable watcher\<close>

lemma closedD:
  assumes "table_update_closed P"
  shows "P g \<Longrightarrow> P (log_msg e g)" "P g \<Longrightarrow> P (downstream_schedule_flush g)"
    "P g \<Longrightarrow> P (g\<lparr>slots := ss, active_buffer_length := n\<rparr>)"
  using assms by (auto simp: table_update_closed_def)

lemma closed_slots:
  assumes "table_update_closed P" "P g"
  shows "P (g\<lparr>slots := ss\<rparr>)"
proof -
  have e: "g\<lparr>slots := ss, active_buffer_length := active_buffer_length g\<rparr> = g\<lparr>slots := ss\<rparr>"
    by simp
  from closedD(3)[OF assms, where ss = ss and n = "active_buffer_length g"] show ?thesis
    by (simp only: e)
qed

lemma closed_add_slot:
  assumes "table_update_closed P" "P g" "add_slot L line nl g = Inr (i, g')"
  shows "P g'"
  using assms(3) closedD(3)[OF assms(1,2)]
  by (auto simp: add_slot_def split: if_splits)

lemma closed_set_slot_type:
  assumes "table_update_closed P" "P g"
  shows "P (set_slot_type i t g)"
  unfolding set_slot_type_def by (rule closed_slots[OF assms])

lemma closed_store_group:
  assumes "table_update_closed P" "P g"
  shows "P (store_group L nl i bp dl tp mt g)"
  using closedD(1,3)[OF assms]
  by (auto simp: store_group_def store_counter_def store_other_def Let_def split: prod.splits)

lemma closed_make_room:
  assumes "table_update_closed P" "P g" "make_room L line nl i mt dl g = Inr (j, g')"
  shows "P g'"
proof (cases "needs_flush mt dl g")
  case True
  with assms(3) obtain g2 where a: "add_slot L line nl (downstream_schedule_flush g) = Inr (j, g2)"
    and g': "g' = set_slot_type j mt g2"
    by (auto simp: make_room_def split: sum.splits)
  from closed_add_slot[OF assms(1) closedD(2)[OF assms(1,2)] a] show ?thesis
    unfolding g' by (rule closed_set_slot_type[OF assms(1)])
next
  case False
  with assms show ?thesis by (simp add: make_room_def)
qed

lemma closed_insert_group:
  assumes "table_update_closed P" "P g" "insert_group L line nl i bp dl g = Inr (i', g')"
  shows "P g'"
proof (cases "memchr bp (CHR ''|'') dl")
  case None
  with assms(3) have "g' = log_msg InvalidMetricData g" by (auto simp: insert_group_def)
  with closedD(1)[OF assms(1,2)] show ?thesis by simp
next
  case (Some tp)
  show ?thesis
  proof (cases "type_s (slots g ! i) \<noteq> TYPE_UNKNOWN \<and>
      type_s (slots g ! i) \<noteq> metric_type_of bp tp")
    case True
    with assms(3) Some have "g' = log_msg ImproperMetricType g"
      by (auto simp: insert_group_def Let_def)
    with closedD(1)[OF assms(1,2)] show ?thesis by simp
  next
    case False
    then have ty: "type_s (slots g ! i) = TYPE_UNKNOWN \<or>
             type_s (slots g ! i) = metric_type_of bp tp" by auto
    from insert_group_accepted[OF Some ty assms(3)] obtain g3 where
      mr: "make_room L line nl i (metric_type_of bp tp) dl
        (if type_s (slots g ! i) = TYPE_UNKNOWN
         then set_slot_type i (metric_type_of bp tp) g else g) = Inr (i', g3)"
      and g': "g' = store_group L nl i' bp dl tp (metric_type_of bp tp) g3"
      by blast
    have "P (if type_s (slots g ! i) = TYPE_UNKNOWN
         then set_slot_type i (metric_type_of bp tp) g else g)"
      using assms(2) closed_set_slot_type[OF assms(1,2)] by simp
    from closed_make_room[OF assms(1) this mr] show ?thesis
      unfolding g' by (rule closed_store_group[OF assms(1)])
  qed
qed

lemma closed_insert_loop:
  assumes c: "table_update_closed P"
  shows "P g \<Longrightarrow> insert_loop L line nl i bp n g = Inr (i', g') \<Longrightarrow> P g'"
proof (induction n arbitrary: i bp g rule: less_induct)
  case (less n)
  show ?case
  proof (cases "memchr bp (CHR '':'') n")
    case None
    with less.prems(2) have "insert_group L line nl i bp n g = Inr (i', g')"
      by (simp add: insert_loop_None)
    from closed_insert_group[OF c less.prems(1) this] show ?thesis .
  next
    case (Some d)
    from less.prems(2) obtain j g1 where
      ig: "insert_group L line nl i bp (d + 1) g = Inr (j, g1)"
      and rest: "insert_loop L line nl j (drop (d + 1) bp) (n - (d + 1)) g1 = Inr (i', g')"
      by (auto simp: insert_loop_Some[OF Some] split: sum.splits)
    from memchr_less[OF Some] have "n - (d + 1) < n" by simp
    from less.IH[OF this closed_insert_group[OF c less.prems(1) ig] rest] show ?thesis .
  qed
qed

lemma closed_find_slot:
  assumes "table_update_closed P" "P g" "find_slot L line nl g = Inr (i, g')"
  shows "P g'"
proof (cases "slot_index (slots g) line nl 0")
  case None
  define g0 where "g0 = (if active_buffer_length g + nl > DOWNSTREAM_BUF_SIZE
             then downstream_schedule_flush g else g)"
  have "P g0" using assms(2) closedD(2)[OF assms(1,2)] by (simp add: g0_def)
  moreover from assms(3) None have "add_slot L line nl g0 = Inr (i, g')"
    by (simp add: find_slot_def g0_def)
  ultimately show ?thesis using closed_add_slot[OF assms(1)] by blast
next
  case (Some j)
  with assms show ?thesis by (auto simp: find_slot_def)
qed

lemma closed_process_data_line:
  assumes "table_update_closed P" "P g" "process_data_line L line len g = Inr g'"
  shows "P g'"
proof (cases "memchr line (CHR '':'') len")
  case None
  with assms(3) have "g' = log_msg InvalidMetric g" by (auto simp: process_data_line_def)
  with closedD(1)[OF assms(1,2)] show ?thesis by simp
next
  case (Some c)
  from assms(3) Some obtain i g1 j where
    fs: "find_slot L line (int c + 1) g = Inr (i, g1)"
    and iv: "insert_values_into_slot L i line c len g1 = Inr (j, g')"
    by (auto simp: process_data_line_def split: sum.splits)
  from iv closed_insert_loop[OF assms(1) closed_find_slot[OF assms(1,2) fs]] show ?thesis
    unfolding insert_values_into_slot_def by blast
qed

lemma closed_udp_lines:
  assumes c: "table_update_closed P"
  shows "P g \<Longrightarrow> udp_lines L bp n g = Inr g' \<Longrightarrow> P g'"
proof (induction n arbitrary: bp g rule: less_induct)
  case (less n)
  show ?case
  proof (cases "memchr bp (CHR 0x0A) n")
    case None
    with less.prems show ?thesis by (simp add: udp_lines_None)
  next
    case (Some d)
    define r where "r = (if d + 1 > 6 \<and> int (d + 1) < DOWNSTREAM_BUF_SIZE - MAX_COUNTER_LENGTH
            then process_data_line L bp (d + 1) g
            else Inr (log_msg (InvalidLength (d + 1 - 1)) g))"
    from less.prems(2) obtain g1 where r: "r = Inr g1"
      and rest: "udp_lines L (drop (d + 1) bp) (n - (d + 1)) g1 = Inr g'"
      unfolding udp_lines_Some[OF Some] r_def[symmetric] by (auto split: sum.splits)
    have "P g1"
    proof (cases "d + 1 > 6 \<and> int (d + 1) < DOWNSTREAM_BUF_SIZE - MAX_COUNTER_LENGTH")
      case True
      with r have "process_data_line L bp (d + 1) g = Inr g1" by (simp add: r_def)
      from closed_process_data_line[OF c less.prems(1) this] show ?thesis .
    next
      case False
      with r have "g1 = log_msg (InvalidLength (d + 1 - 1)) g" by (auto simp: r_def)
      with closedD(1)[OF c less.prems(1)] show ?thesis by simp
    qed
    moreover from memchr_less[OF Some] have "n - (d + 1) < n" by simp
    ultimately show ?thesis using less.IH rest by blast
  qed
qed

lemma closed_udp_read_cb:
  assumes "table_update_closed P" "P g" "udp_read_cb L pkt g = Inr g'"
  shows "P g'"
  using assms(3) assms(2) closed_udp_lines[OF assms(1)]
  unfolding udp_read_cb_def Let_def by (auto split: if_splits)

lemma stalled_closed:
  assumes "0 < b"
  shows "table_update_closed (stalled f b sn)"
  using assms
  by (auto simp: table_update_closed_def stalled_def log_msg_def downstream_schedule_flush_def
      Let_def nth_list_update)

lemma stalled_step:
  assumes "0 < b" "stalled f b sn g" "step L g g'"
  shows "stalled f b sn g'"
  using assms(3,2)
proof (induction rule: step.induct)
  case (udp_read pkt g g')
  from closed_udp_read_cb[OF stalled_closed[OF assms(1)] udp_read(3,2)] show ?case .
next
  case (flush_timer g)
  with closedD(2)[OF stalled_closed[OF assms(1)]] show ?case
    by (auto simp: downstream_flush_timer_cb_def)
next
  case (flush_writable g ok g')
  then show ?case by (simp add: stalled_def)
next
  case (update g g')
  then show ?case
    by (auto simp: stalled_def update_downstreams_def split: if_splits sum.splits)
next
  case (health g hs')
  then show ?case by (simp add: stalled_def)
next
  case (refresh g h_addr_list)
  then show ?case by (simp add: stalled_def get_dns_data_def Let_def log_msg_def)
qed

text \<open>
  Claim C10, as amended: when the writable watcher is stopped while the buffer at the flush
  index is queued and not empty, no later callback restarts the watcher: every rotation
  that is not refused moves the active index to a buffer of length zero, so the active
  index never meets the flush index; the flush index stays, and nothing is sent any more,
  whatever the health of the hosts becomes.
\<close>

theorem stalled_forever:
  assumes "\<not> flush_watcher g"
    and "flush_buffer_idx g \<noteq> active_buffer_idx g"
    and "0 < buffer_length g ! flush_buffer_idx g"
    and "(step L)\<^sup>*\<^sup>* g g'"
  shows "\<not> flush_watcher g' \<and> flush_buffer_idx g' = flush_buffer_idx g \<and>
         buffer_length g' ! flush_buffer_idx g' = buffer_length g ! flush_buffer_idx g \<and>
         sent g' = sent g"
proof -
  let ?f = "flush_buffer_idx g" and ?b = "buffer_length g ! flush_buffer_idx g"
  from assms(4) have "stalled ?f ?b (sent g) g'"
  proof (induction rule: rtranclp_induct)
    case base
    from assms(1,2) show ?case by (auto simp: stalled_def)
  next
    case (step y z)
    from stalled_step[OF assms(3) step(3) step(2)] show ?case .
  qed
  then show ?thesis by (simp add: stalled_def)
qed


lemma window_round_steps:
  "length pkt < 4096 \<Longrightarrow> (step L)\<^sup>*\<^sup>* g (window_round L pkt g)"
proof (cases "udp_read_cb L pkt g")
  case (Inl e)
  then show ?thesis by (simp add: window_round_def)
next
  case (Inr g1)
  assume "length pkt < 4096"
  then have "step L g g1" using Inr by (rule step.udp_read)
  moreover have "step L g1 (downstream_flush_timer_cb g1)" by (rule step.flush_timer)
  ultimately show ?thesis by (simp add: window_round_def Inr)
qed

lemma window_rounds_steps:
  "length pkt < 4096 \<Longrightarrow> (step L)\<^sup>*\<^sup>* g ((window_round L pkt ^^ n) g)"
proof (induction n)
  case 0
  then show ?case by simp
next
  case (Suc n)
  from Suc.IH[OF Suc.prems] window_round_steps[OF Suc.prems, of L "(window_round L pkt ^^ n) g"]
  show ?case by simp
qed

theorem stalled_forever_witness:
  "\<not> flush_watcher (window_round dec_libc ''bb:2|c\<newline>'' stalled_full) \<and>
   flush_buffer_idx (window_round dec_libc ''bb:2|c\<newline>'' stalled_full) = 0 \<and>
   buffer_length (window_round dec_libc ''bb:2|c\<newline>'' stalled_full) ! 0 = 7 \<and>
   active_buffer_idx (window_round dec_libc ''bb:2|c\<newline>'' stalled_full) = 2 \<and>
   sent (window_round dec_libc ''bb:2|c\<newline>'' stalled_full) = []"
proof -
  have 1: "\<not> flush_watcher stalled_full" by code_simp
  have 2: "flush_buffer_idx stalled_full \<noteq> active_buffer_idx stalled_full" by code_simp
  have 3: "0 < buffer_length stalled_full ! flush_buffer_idx stalled_full" by code_simp
  have 4: "(step dec_libc)\<^sup>*\<^sup>* stalled_full (window_round dec_libc ''bb:2|c\<newline>'' stalled_full)"
    by (rule window_round_steps) simp
  have 5: "flush_buffer_idx stalled_full = 0" "buffer_length stalled_full ! 0 = 7"
    "sent stalled_full = []"
    by code_simp+
  have 6: "active_buffer_idx (window_round dec_libc ''bb:2|c\<newline>'' stalled_full) = 2"
    by code_simp
  from stalled_forever[OF 1 2 3 4] 5 6 show ?thesis by auto
qed

lemma stalled_example_reachable: "reachable dec_libc stalled_example"
proof -
  let ?g0 = "init_downstream [0x0A000001] :: dec downstream_s"
  let ?g1 = "?g0\<lparr>active_buffer_length := 3,
        slots := [\<lparr>buffer = ''aa:'', name_length = 3, length_s = 3,
                    counter = (0, 1), type_s = TYPE_UNKNOWN\<rparr>],
        log_out := [InvalidMetricData]\<rparr>"
  let ?g2 = "?g0\<lparr>active_buffer_idx := 1, flush_watcher := True, log_out := [InvalidMetricData]\<rparr>"
  have "reachable dec_libc ?g0" by (rule reachable.start) simp
  moreover have "udp_read_cb dec_libc ''aa:1234\<newline>'' ?g0 = Inr ?g1" by code_simp
  then have "step dec_libc ?g0 ?g1" by (intro step.udp_read) simp_all
  ultimately have r1: "reachable dec_libc ?g1" by (rule reachable.next_step)
  have "downstream_flush_timer_cb ?g1 = ?g2" by code_simp
  with step.flush_timer[of dec_libc ?g1] have "step dec_libc ?g1 ?g2" by simp
  with r1 have r2: "reachable dec_libc ?g2" by (rule reachable.next_step)
  have "flush_watcher ?g2" by simp
  moreover have "downstream_flush_cb True ?g2 = Inr stalled_example" by code_simp
  ultimately have "step dec_libc ?g2 stalled_example" by (rule step.flush_writable)
  with r2 show ?thesis by (rule reachable.next_step)
qed

lemma rounds_1_to_15:
  "list_all (\<lambda>k. window_round dec_libc ''aa:1234\<newline>'' (after_rounds k) = after_rounds (Suc k))
     [0..<15]"
  by code_simp

lemma after_rounds_funpow:
  "k \<le> 15 \<Longrightarrow> (window_round dec_libc ''aa:1234\<newline>'' ^^ k) stalled_example = after_rounds k"
proof (induction k)
  case 0
  show ?case by (simp add: after_rounds_def stalled_example_def)
next
  case (Suc k)
  then have "k < 15" by simp
  with rounds_1_to_15 have "window_round dec_libc ''aa:1234\<newline>'' (after_rounds k) =
      after_rounds (Suc k)"
    by (simp add: list_all_iff)
  with Suc show ?case by simp
qed

lemma round_16:
  "flush_watcher (window_round dec_libc ''aa:1234\<newline>'' (after_rounds 15))"
  by code_simp

text \<open>
  Claim C10 as stated only asks that the two indices differ. When the queued datagram is
  empty (every sample of the window was invalid) the active index comes round to the
  flush index and the seventeenth window restarts the watcher.
\<close>

theorem empty_queue_restarts_watcher:
  "reachable dec_libc stalled_example \<and>
   \<not> flush_watcher stalled_example \<and>
   flush_buffer_idx stalled_example \<noteq> active_buffer_idx stalled_example \<and>
   log_out stalled_example = [InvalidMetricData, NoDownstreamHosts] \<and>
   (step dec_libc)\<^sup>*\<^sup>* stalled_example
     ((window_round dec_libc ''aa:1234\<newline>'' ^^ 16) stalled_example) \<and>
   flush_watcher ((window_round dec_libc ''aa:1234\<newline>'' ^^ 16) stalled_example)"
proof -
  have "\<not> flush_watcher stalled_example" by code_simp
  moreover have "flush_buffer_idx stalled_example \<noteq> active_buffer_idx stalled_example"
    by code_simp
  moreover have "log_out stalled_example = [InvalidMetricData, NoDownstreamHosts]" by code_simp
  moreover have "(step dec_libc)\<^sup>*\<^sup>* stalled_example
     ((window_round dec_libc ''aa:1234\<newline>'' ^^ 16) stalled_example)"
    by (rule window_rounds_steps) simp
  moreover have "(window_round dec_libc ''aa:1234\<newline>'' ^^ 16) stalled_example =
      window_round dec_libc ''aa:1234\<newline>'' (after_rounds 15)"
    using after_rounds_funpow[of 15] by (simp add: numeral_eq_Suc)
  ultimately show ?thesis using stalled_example_reachable round_16 by simp
qed

section \<open>Running lines symbolically\<close>

lemma memchr_none: "c \<notin> set (take n s) \<Longrightarrow> memchr s c n = None"
proof (induction s arbitrary: n)
  case Nil
  then show ?case by simp
next
  case (Cons x xs)
  then show ?case by (cases n) auto
qed

lemma find_slot_new:
  assumes "slot_index (slots g) line nl 0 = None"
    and "active_buffer_length g + nl \<le> DOWNSTREAM_BUF_SIZE"
  shows "find_slot L line nl g =
     (if slots_used g \<ge> NUM_OF_SLOTS then Inl SlotTableOverflow
      else Inr (length (slots g),
             g\<lparr>slots := slots g @ [new_slot L line nl],
               active_buffer_length := active_buffer_length g + nl\<rparr>))"
  using assms by (simp add: find_slot_def add_slot_def new_slot_def)

lemma insert_values_single_group:
  assumes "memchr (drop (colon + 1) line) (CHR '':'') (len - colon - 1) = None"
  shows "insert_values_into_slot L i line colon len g =
     insert_group L line (name_length (slots g ! i)) i (drop (colon + 1) line) (len - colon - 1) g"
  using assms by (simp add: insert_values_into_slot_def insert_loop_None)

lemma insert_group_invalid:
  "memchr bp (CHR ''|'') dl = None \<Longrightarrow>
   insert_group L line nl i bp dl g = Inr (i, log_msg InvalidMetricData g)"
  by (simp add: insert_group_def)

lemma insert_group_first_sample:
  assumes "memchr bp (CHR ''|'') dl = Some tp"
    and "type_s (slots g ! i) = TYPE_UNKNOWN"
    and "\<not> needs_flush (metric_type_of bp tp) dl g"
  shows "insert_group L line nl i bp dl g =
     Inr (i, store_group L nl i bp dl tp (metric_type_of bp tp)
               (set_slot_type i (metric_type_of bp tp) g))"
proof -
  have "\<not> needs_flush (metric_type_of bp tp) dl (set_slot_type i (metric_type_of bp tp) g)"
    using assms(3) by (simp add: needs_flush_def set_slot_type_def)
  then show ?thesis
    using assms(1,2) by (simp add: insert_group_def Let_def make_room_def)
qed

lemma process_invalid_line:
  fixes nm junk rest :: string
  defines "line \<equiv> nm @ CHR '':'' # junk @ [CHR 0x0A]"
  assumes nm: "CHR '':'' \<notin> set nm"
    and junk: "CHR '':'' \<notin> set junk" "CHR ''|'' \<notin> set junk"
    and nf: "slot_index (slots g) (line @ rest) (int (length nm) + 1) 0 = None"
    and room: "active_buffer_length g + (int (length nm) + 1) \<le> DOWNSTREAM_BUF_SIZE"
  shows "process_data_line L (line @ rest) (length line) g =
     (if slots_used g \<ge> NUM_OF_SLOTS then Inl SlotTableOverflow
      else Inr (g\<lparr>slots := slots g @ [new_slot L (line @ rest) (int (length nm) + 1)],
                  active_buffer_length := active_buffer_length g + (int (length nm) + 1),
                  log_out := log_out g @ [InvalidMetricData]\<rparr>))"
proof -
  have colon: "memchr (line @ rest) (CHR '':'') (length line) = Some (length nm)"
    using memchr_first[OF nm, of "length line" "junk @ [CHR 0x0A] @ rest"]
    by (simp add: line_def)
  have d: "drop (length nm + 1) (line @ rest) = junk @ [CHR 0x0A] @ rest"
    by (simp add: line_def)
  have n: "length line - length nm - 1 = length junk + 1"
    by (simp add: line_def)
  have nocolon: "memchr (junk @ [CHR 0x0A] @ rest) (CHR '':'') (length junk + 1) = None"
    using junk by (intro memchr_none) simp
  have nobar: "memchr (junk @ [CHR 0x0A] @ rest) (CHR ''|'') (length junk + 1) = None"
    using junk by (intro memchr_none) simp
  show ?thesis
  proof (cases "slots_used g \<ge> NUM_OF_SLOTS")
    case True
    then show ?thesis
      using find_slot_new[OF nf room, of L]
      by (simp add: process_data_line_def colon)
  next
    case False
    let ?g1 = "g\<lparr>slots := slots g @ [new_slot L (line @ rest) (int (length nm) + 1)],
               active_buffer_length := active_buffer_length g + (int (length nm) + 1)\<rparr>"
    from False find_slot_new[OF nf room, of L]
    have fs: "find_slot L (line @ rest) (int (length nm) + 1) g = Inr (length (slots g), ?g1)"
      by simp
    have iv: "insert_values_into_slot L (length (slots g)) (line @ rest) (length nm) (length line) ?g1
        = Inr (length (slots g), log_msg InvalidMetricData ?g1)"
      using insert_values_single_group[of "length nm" "line @ rest" "length line",
          unfolded d n, OF nocolon, of L "length (slots g)" ?g1]
      by (simp only: insert_group_invalid[OF nobar])
    show ?thesis
      using False by (simp add: process_data_line_def colon fs iv log_msg_def)
  qed
qed


lemma slot_index_name_slots:
  assumes "length nm = 2" "\<forall>x\<in>set ns0. length x = 2" "nm \<notin> set ns0"
  shows "slot_index (map (name_slot L) ns0) (nm @ CHR '':'' # rest) 3 i = None"
  using assms(2,3)
proof (induction ns0 arbitrary: i)
  case Nil
  then show ?case by simp
next
  case (Cons x xs)
  from Cons.prems have x: "length x = 2" "x \<noteq> nm" by auto
  have "take (nat 3) (nm @ CHR '':'' # rest) = nm @ [CHR '':'']"
    using assms(1) by (simp add: numeral_3_eq_3)
  moreover have "take (nat 3) (buffer (name_slot L x)) = x @ [CHR '':'']"
    using x(1) by (simp add: name_slot_def)
  ultimately have "take (nat 3) (nm @ CHR '':'' # rest) \<noteq> take (nat 3) (buffer (name_slot L x))"
    using x(2) by simp
  with Cons show ?case by simp
qed

lemma udp_lines_zero: "udp_lines L bp 0 g = Inr g"
proof -
  have "memchr bp (CHR 0x0A) 0 = None" by (cases bp) simp_all
  then show ?thesis by (rule udp_lines_None)
qed

lemma untyped_line_step:
  assumes nm: "length nm = 2" "CHR '':'' \<notin> set nm" "CHR 0x0A \<notin> set nm"
    and ns0: "\<forall>x\<in>set ns0. length x = 2" "nm \<notin> set ns0"
    and g: "slots g = map (name_slot L) ns0" "active_buffer_length g = 3 * int (length ns0)"
    and cap: "length ns0 \<le> 207"
  shows "udp_lines L (untyped_line nm @ rest) (8 + m) g =
     (if length ns0 = 207 then Inl SlotTableOverflow
      else udp_lines L rest m
             (g\<lparr>slots := map (name_slot L) (ns0 @ [nm]),
                active_buffer_length := 3 * int (length (ns0 @ [nm])),
                log_out := log_out g @ [InvalidMetricData]\<rparr>))"
proof -
  let ?body = "nm @ CHR '':'' # ''1234''"
  let ?line = "nm @ CHR '':'' # ''1234'' @ [CHR 0x0A]"
  have l: "untyped_line nm @ rest = ?body @ CHR 0x0A # rest"
    by (simp add: untyped_line_def)
  have nl: "CHR 0x0A \<notin> set ?body" using nm by simp
  have len: "length ?body < 8 + m" "length ?body + 1 = 8" using nm by simp_all
  have lr: "?body @ CHR 0x0A # rest = ?line @ rest" by simp
  have ll: "length ?line = 8" using nm by simp
  have nf: "slot_index (slots g) (?line @ rest) (int (length nm) + 1) 0 = None"
    using slot_index_name_slots[OF nm(1) ns0, of L "''1234'' @ [CHR 0x0A] @ rest" 0] nm(1)
    by (simp add: g)
  have room: "active_buffer_length g + (int (length nm) + 1) \<le> DOWNSTREAM_BUF_SIZE"
    using cap nm(1) by (simp add: g)
  have ns: "new_slot L (?line @ rest) (int (length nm) + 1) = name_slot L nm"
    using nm(1) by (simp add: new_slot_def name_slot_def numeral_3_eq_3)
  have p: "process_data_line L (?line @ rest) (length ?line) g =
     (if slots_used g \<ge> NUM_OF_SLOTS then Inl SlotTableOverflow
      else Inr (g\<lparr>slots := slots g @ [new_slot L (?line @ rest) (int (length nm) + 1)],
                  active_buffer_length := active_buffer_length g + (int (length nm) + 1),
                  log_out := log_out g @ [InvalidMetricData]\<rparr>))"
    by (rule process_invalid_line[OF nm(2) _ _ nf room]) simp_all
  have c: "7 \<le> length ?body + 1 \<and> length ?body + 1 \<le> 1431" using nm(1) by simp
  have u: "udp_lines L (?body @ CHR 0x0A # rest) (8 + m) g =
      (case process_data_line L (?line @ rest) 8 g of
              Inl e \<Rightarrow> Inl e
            | Inr g' \<Rightarrow> udp_lines L rest (8 + m - 8) g')"
    using udp_lines_line[OF nl len(1), of L rest g]
    by (simp only: len(2) lr, simp)
  have start: "udp_lines L (untyped_line nm @ rest) (8 + m) g =
      (case process_data_line L (?line @ rest) 8 g of
              Inl e \<Rightarrow> Inl e
            | Inr g' \<Rightarrow> udp_lines L rest (8 + m - 8) g')"
    unfolding l by (rule u)
  show ?thesis
  proof (cases "length ns0 = 207")
    case True
    then have "slots_used g \<ge> NUM_OF_SLOTS" by (simp add: slots_used_def g)
    with p ll have "process_data_line L (?line @ rest) 8 g = Inl SlotTableOverflow" by simp
    then have "udp_lines L (untyped_line nm @ rest) (8 + m) g = Inl SlotTableOverflow"
      unfolding start by (simp only: sum.case)
    with True show ?thesis by (simp only: simp_thms if_True)
  next
    case False
    let ?g1 = "g\<lparr>slots := map (name_slot L) (ns0 @ [nm]),
                active_buffer_length := 3 * int (length (ns0 @ [nm])),
                log_out := log_out g @ [InvalidMetricData]\<rparr>"
    from False cap have "\<not> slots_used g \<ge> NUM_OF_SLOTS" by (simp add: slots_used_def g)
    with p have p2: "process_data_line L (?line @ rest) (length ?line) g =
        Inr (g\<lparr>slots := slots g @ [new_slot L (?line @ rest) (int (length nm) + 1)],
                  active_buffer_length := active_buffer_length g + (int (length nm) + 1),
                  log_out := log_out g @ [InvalidMetricData]\<rparr>)"
      by (simp only: if_False)
    have e: "g\<lparr>slots := map (name_slot L) ns0 @ [name_slot L nm],
               active_buffer_length := 3 * int (length ns0) + (int (length nm) + 1),
               log_out := log_out g @ [InvalidMetricData]\<rparr> = ?g1"
      using nm(1) by simp
    from p2 have "process_data_line L (?line @ rest) 8 g = Inr ?g1"
      unfolding ns g ll e .
    then have "udp_lines L (untyped_line nm @ rest) (8 + m) g = udp_lines L rest (8 + m - 8) ?g1"
      unfolding start by (simp only: sum.case)
    then have "udp_lines L (untyped_line nm @ rest) (8 + m) g = udp_lines L rest m ?g1"
      by (simp only: add_diff_cancel_left')
    with False show ?thesis by (simp only: if_False)
  qed
qed

lemma untyped_lines:
  assumes "\<forall>nm\<in>set ns. length nm = 2 \<and> CHR '':'' \<notin> set nm \<and> CHR 0x0A \<notin> set nm"
    and "\<forall>x\<in>set ns0. length x = 2" and "distinct (ns0 @ ns)"
    and "slots g = map (name_slot L) ns0" and "active_buffer_length g = 3 * int (length ns0)"
    and "length ns0 + length ns \<le> 207"
  shows "udp_lines L (concat (map untyped_line ns) @ rest) (8 * length ns + m) g =
     udp_lines L rest m
       (g\<lparr>slots := map (name_slot L) (ns0 @ ns),
          active_buffer_length := 3 * int (length (ns0 @ ns)),
          log_out := log_out g @ replicate (length ns) InvalidMetricData\<rparr>)"
  using assms
proof (induction ns arbitrary: ns0 g)
  case Nil
  then have "g\<lparr>slots := map (name_slot L) (ns0 @ []),
          active_buffer_length := 3 * int (length (ns0 @ [])),
          log_out := log_out g @ replicate (length ([]::string list)) InvalidMetricData\<rparr> = g"
    by simp
  then show ?case by simp
next
  case (Cons nm ns)
  let ?g1 = "g\<lparr>slots := map (name_slot L) (ns0 @ [nm]),
                active_buffer_length := 3 * int (length (ns0 @ [nm])),
                log_out := log_out g @ [InvalidMetricData]\<rparr>"
  from Cons.prems have nm: "length nm = 2" "CHR '':'' \<notin> set nm" "CHR 0x0A \<notin> set nm"
    and ns0: "\<forall>x\<in>set ns0. length x = 2" "nm \<notin> set ns0"
    and cap: "length ns0 \<le> 207" "length ns0 \<noteq> 207"
    by auto
  have step1: "udp_lines L (untyped_line nm @ (concat (map untyped_line ns) @ rest))
        (8 + (8 * length ns + m)) g =
      udp_lines L (concat (map untyped_line ns) @ rest) (8 * length ns + m) ?g1"
    using untyped_line_step[OF nm ns0 Cons.prems(4,5) cap(1)] cap(2) by simp
  have ih: "udp_lines L (concat (map untyped_line ns) @ rest) (8 * length ns + m) ?g1 =
      udp_lines L rest m
       (?g1\<lparr>slots := map (name_slot L) ((ns0 @ [nm]) @ ns),
          active_buffer_length := 3 * int (length ((ns0 @ [nm]) @ ns)),
          log_out := log_out ?g1 @ replicate (length ns) InvalidMetricData\<rparr>)"
    using Cons.prems by (intro Cons.IH) auto
  have e: "8 * length (nm # ns) + m = 8 + (8 * length ns + m)" by simp
  show ?case
    unfolding e using step1 ih by (simp add: replicate_app_Cons_same)
qed

lemma short_names_split: "short_names = take 207 short_names @ [''pm'']"
  by code_simp

lemma short_names_ok:
  "list_all (\<lambda>nm. length nm = 2 \<and> CHR '':'' \<notin> set nm \<and> CHR 0x0A \<notin> set nm) short_names"
  by code_simp

lemma short_names_distinct: "distinct short_names"
  by code_simp

lemma short_names_length: "length (take 207 short_names) = 207"
  by code_simp

text \<open>
  Claim C4 fails on the code: \<^verbatim>\<open>find_slot\<close> flushes only when the accounting would pass
  the buffer size, and a line none of whose groups is stored costs its name only. The
  datagram of 208 lines \<^verbatim>\<open>XY:1234\<close> with different names (1664 bytes) uses 3 bytes of the
  accounting per line, so no flush is scheduled, and the last line makes \<^verbatim>\<open>add_slot\<close>
  write the entry at index 207 of an array of 207 entries.
\<close>

theorem slot_table_overflow:
  "length slot_overflow_pkt = 1664 \<and>
   udp_read_cb dec_libc slot_overflow_pkt (init_downstream [0x0A000001]) = Inl SlotTableOverflow"
proof -
  let ?g0 = "init_downstream [0x0A000001] :: dec downstream_s"
  define ns where "ns = take 207 short_names"
  have split: "short_names = ns @ [''pm'']" unfolding ns_def by (rule short_names_split)
  have nslen: "length ns = 207" unfolding ns_def by (rule short_names_length)
  have ok: "\<forall>nm\<in>set short_names. length nm = 2 \<and> CHR '':'' \<notin> set nm \<and> CHR 0x0A \<notin> set nm"
    using short_names_ok by (simp add: list_all_iff)
  then have okns: "\<forall>nm\<in>set ns. length nm = 2 \<and> CHR '':'' \<notin> set nm \<and> CHR 0x0A \<notin> set nm"
    by (simp add: split)
  have d: "distinct (ns @ [''pm''])" using short_names_distinct by (simp only: split)
  have pkt: "slot_overflow_pkt = concat (map untyped_line ns) @ (untyped_line ''pm'' @ [])"
    by (simp add: slot_overflow_pkt_def split)
  have len8: "length (concat (map untyped_line xs)) = 8 * length xs"
    if "\<forall>nm\<in>set xs. length nm = 2" for xs
    using that by (induction xs) (simp_all add: untyped_line_def)
  have len: "length slot_overflow_pkt = 1664"
    using len8[of ns] okns by (simp add: pkt nslen untyped_line_def)
  let ?g207 = "?g0\<lparr>slots := map (name_slot dec_libc) ([] @ ns),
          active_buffer_length := 3 * int (length ([] @ ns)),
          log_out := log_out ?g0 @ replicate (length ns) InvalidMetricData\<rparr>"
  have first: "udp_lines dec_libc (concat (map untyped_line ns) @ (untyped_line ''pm'' @ []))
        (8 * length ns + (8 + 0)) ?g0 =
      udp_lines dec_libc (untyped_line ''pm'' @ []) (8 + 0) ?g207"
  proof (rule untyped_lines)
    show "\<forall>nm\<in>set ns. length nm = 2 \<and> CHR '':'' \<notin> set nm \<and> CHR 0x0A \<notin> set nm"
      by (rule okns)
    show "distinct ([] @ ns)" using d by simp
    show "slots ?g0 = map (name_slot dec_libc) []"
      by (simp add: init_downstream_def get_dns_data_def Let_def)
    show "active_buffer_length ?g0 = 3 * int (length ([]::string list))"
      by (simp add: init_downstream_def get_dns_data_def Let_def)
    show "length ([]::string list) + length ns \<le> 207" by (simp add: nslen)
  qed simp
  have last: "udp_lines dec_libc (untyped_line ''pm'' @ []) (8 + 0) ?g207 =
       (if length ns = 207 then Inl SlotTableOverflow
        else udp_lines dec_libc [] 0
             (?g207\<lparr>slots := map (name_slot dec_libc) (ns @ [''pm'']),
                active_buffer_length := 3 * int (length (ns @ [''pm''])),
                log_out := log_out ?g207 @ [InvalidMetricData]\<rparr>))"
  proof (rule untyped_line_step)
    show "\<forall>x\<in>set ns. length x = 2" using okns by blast
    show "''pm'' \<notin> set ns" using d by simp
    show "length ns \<le> 207" by (simp add: nslen)
  qed simp_all
  have n: "length slot_overflow_pkt = 8 * length ns + (8 + 0)"
    by (simp add: len nslen)
  have ne: "slot_overflow_pkt \<noteq> []" using len by auto
  have lst: "last slot_overflow_pkt = CHR 0x0A"
    unfolding pkt by (simp add: untyped_line_def)
  have "udp_read_cb dec_libc slot_overflow_pkt ?g0 =
      udp_lines dec_libc slot_overflow_pkt (length slot_overflow_pkt) ?g0"
    using ne lst by (simp add: udp_read_cb_def)
  also have "\<dots> = udp_lines dec_libc (untyped_line ''pm'' @ []) (8 + 0) ?g207"
    unfolding n unfolding pkt by (rule first)
  also have "\<dots> = Inl SlotTableOverflow"
    unfolding last by (simp only: nslen simp_thms if_True)
  finally show ?thesis using len by simp
qed

section \<open>Counter samples\<close>

text \<open>
  An accepted counter sample adds the value divided by the rate to the accumulator of the
  slot and prints the accumulator behind the name, over what was there.
\<close>

lemma store_counter_accepted:
  fixes dl :: nat
  assumes "i < length (slots g)" and "strtod L bp = (v, tp, False)"
  defines "c \<equiv> d_add L (counter (slots g ! i)) (d_div L v (counter_rate L bp dl tp))"
  shows "slots (store_counter L nl i bp dl tp g) ! i =
           (slots g ! i)\<lparr>counter := c,
              buffer := take (nat nl) (buffer (slots g ! i)) @ sprintf_g15 L c @ ''|c'' @ [CHR 0x0A],
              length_s := name_length (slots g ! i) + int (length (sprintf_g15 L c)) + 3\<rparr>"
  using assms(1,2) by (simp add: store_counter_def Let_def c_def)

text \<open>
  Claim C1 fails on the code for a rate that cannot be parsed. In the line
  \<^verbatim>\<open>a:1|c|@:2|c\<close> the rate of the first group is empty: \<^verbatim>\<open>strtod\<close> converts nothing, returns
  zero, leaves \<^verbatim>\<open>errno\<close> alone and stops where it began, which is one byte before the end of
  the group, so the test of line 371 keeps the rate \<open>0\<close>. The sample is accepted as
  \<open>1 / 0\<close> and the payload of the slot is \<^verbatim>\<open>inf|c\<close>, where the rate \<open>1.0\<close> for both samples
  gives \<^verbatim>\<open>3|c\<close>.
\<close>

theorem empty_rate_divides_by_zero:
  "udp_read_cb dec_libc ''a:1|c|@:2|c\<newline>'' (init_downstream [0x0A000001]) =
     Inr ((init_downstream [0x0A000001])
       \<lparr>active_buffer_length := 8,
        slots := [\<lparr>buffer = ''a:inf|c\<newline>'', name_length = 2, length_s = 8,
                    counter = (1, 0), type_s = TYPE_COUNTER\<rparr>]\<rparr>)
   \<and> counter_rate dec_libc ''1|c|@:2|c\<newline>'' 6 1 = (0, 1)
   \<and> sprintf_g15 dec_libc
         (d_add dec_libc
            (d_add dec_libc (d_zero dec_libc) (d_div dec_libc (1, 1) (d_one dec_libc)))
            (d_div dec_libc (2, 1) (d_one dec_libc))) = ''3''"
  by code_simp

section \<open>The length of the packed datagram\<close>

text \<open>
  A line with one group that is not a counter, and a line with one counter group, each for
  a name that has no slot yet and with room in the accounting.
\<close>

lemma process_other_line:
  fixes nm v t rest :: string
  defines "line \<equiv> nm @ CHR '':'' # v @ CHR ''|'' # t @ [CHR 0x0A]"
  assumes nm: "CHR '':'' \<notin> set nm"
    and v: "CHR '':'' \<notin> set v" "CHR ''|'' \<notin> set v"
    and t: "CHR '':'' \<notin> set t" "hd (t @ [CHR 0x0A]) \<noteq> CHR ''c''"
    and nf: "slot_index (slots g) (line @ rest) (int (length nm) + 1) 0 = None"
    and room: "active_buffer_length g + int (length line) \<le> DOWNSTREAM_BUF_SIZE"
    and cap: "\<not> slots_used g \<ge> NUM_OF_SLOTS"
  shows "process_data_line L (line @ rest) (length line) g =
     Inr (g\<lparr>slots := slots g @
                  [\<lparr>buffer = nm @ CHR '':'' # v @ CHR ''|'' # t @ [CHR '':''],
                    name_length = int (length nm) + 1, length_s = int (length line),
                    counter = d_zero L, type_s = TYPE_OTHER\<rparr>],
            active_buffer_length := active_buffer_length g + int (length line)\<rparr>)"
proof -
  let ?bp = "v @ CHR ''|'' # t @ [CHR 0x0A] @ rest"
  let ?dl = "length v + 1 + length t + 1"
  let ?nl = "int (length nm) + 1"
  let ?i = "length (slots g)"
  let ?g1 = "g\<lparr>slots := slots g @ [new_slot L (line @ rest) ?nl],
               active_buffer_length := active_buffer_length g + ?nl\<rparr>"
  have colon: "memchr (line @ rest) (CHR '':'') (length line) = Some (length nm)"
    using memchr_first[OF nm, of "length line" "v @ CHR ''|'' # t @ [CHR 0x0A] @ rest"]
    by (simp add: line_def)
  have d: "drop (length nm + 1) (line @ rest) = ?bp"
    by (simp add: line_def)
  have n: "length line - length nm - 1 = ?dl"
    by (simp add: line_def)
  have nocolon: "memchr ?bp (CHR '':'') ?dl = None"
    using v t by (intro memchr_none) simp
  have bar: "memchr ?bp (CHR ''|'') ?dl = Some (length v)"
    using memchr_first[OF v(2), of ?dl "t @ [CHR 0x0A] @ rest"] by simp
  have "byte_at ?bp (length v + 1) = hd (t @ [CHR 0x0A])"
    by (cases t) (simp_all add: byte_at_def nth_append)
  with t(2) have mt: "metric_type_of ?bp (length v) = TYPE_OTHER"
    by (simp add: metric_type_of_def)
  have room1: "active_buffer_length g + ?nl \<le> DOWNSTREAM_BUF_SIZE"
    using room by (simp add: line_def)
  from cap find_slot_new[OF nf room1, of L]
  have fs: "find_slot L (line @ rest) ?nl g = Inr (?i, ?g1)"
    by simp
  have ty: "type_s (slots ?g1 ! ?i) = TYPE_UNKNOWN"
    by (simp add: new_slot_def)
  have nfl: "\<not> needs_flush (metric_type_of ?bp (length v)) ?dl ?g1"
    using room mt by (simp add: needs_flush_def line_def)
  have nl1: "name_length (slots ?g1 ! ?i) = ?nl"
    by (simp add: new_slot_def)
  have iv: "insert_values_into_slot L ?i (line @ rest) (length nm) (length line) ?g1
        = Inr (?i, store_other ?i ?bp ?dl (set_slot_type ?i TYPE_OTHER ?g1))"
    using insert_values_single_group[of "length nm" "line @ rest" "length line",
          unfolded d n, OF nocolon, of L ?i ?g1]
      insert_group_first_sample[OF bar ty nfl, of L "line @ rest" ?nl]
    by (simp only: nl1 mt store_group_def metric_type_e.distinct if_False)
  have tk: "take (nat ?nl) (line @ rest) = nm @ [CHR '':'']"
    by (simp add: line_def nat_add_distrib)
  have tk2: "take ?dl ?bp = v @ CHR ''|'' # t @ [CHR 0x0A]"
    by simp
  have up: "(v @ CHR ''|'' # t @ [CHR 0x0A])[?dl - 1 := CHR '':''] = v @ CHR ''|'' # t @ [CHR '':'']"
    by (simp add: list_update_append)
  have fin: "store_other ?i ?bp ?dl (set_slot_type ?i TYPE_OTHER ?g1) =
     g\<lparr>slots := slots g @
                  [\<lparr>buffer = nm @ CHR '':'' # v @ CHR ''|'' # t @ [CHR '':''],
                    name_length = ?nl, length_s = int (length line),
                    counter = d_zero L, type_s = TYPE_OTHER\<rparr>],
            active_buffer_length := active_buffer_length g + int (length line)\<rparr>"
    apply (simp add: store_other_def set_slot_type_def Let_def new_slot_def)
    apply (simp add: line_def nat_add_distrib list_update_append)
    done
  note iv' = iv[unfolded fin]
  show ?thesis
    by (simp add: process_data_line_def colon fs iv')
qed


lemma process_counter_line:
  fixes nm v :: string
  defines "line \<equiv> nm @ CHR '':'' # v @ ''|c'' @ [CHR 0x0A]"
  assumes nm: "CHR '':'' \<notin> set nm"
    and v: "CHR '':'' \<notin> set v" "CHR ''|'' \<notin> set v"
    and nf: "slot_index (slots g) line (int (length nm) + 1) 0 = None"
    and room: "active_buffer_length g + (int (length nm) + 1) + MAX_COUNTER_LENGTH
                 \<le> DOWNSTREAM_BUF_SIZE"
    and cap: "\<not> slots_used g \<ge> NUM_OF_SLOTS"
    and sd: "strtod L (v @ ''|c'' @ [CHR 0x0A]) = (x, length v, False)"
    and c: "c = d_add L (d_zero L) (d_div L x (d_one L))"
    and len: "n = length line"
  shows "process_data_line L line n g =
     Inr (g\<lparr>slots := slots g @
                  [\<lparr>buffer = nm @ CHR '':'' # sprintf_g15 L c @ ''|c'' @ [CHR 0x0A],
                    name_length = int (length nm) + 1,
                    length_s = int (length nm) + 1 + (int (length (sprintf_g15 L c)) + 3),
                    counter = c, type_s = TYPE_COUNTER\<rparr>],
            active_buffer_length :=
              active_buffer_length g + (int (length nm) + 1) +
                (int (length (sprintf_g15 L c)) + 3)\<rparr>)"
proof -
  let ?bp = "v @ ''|c'' @ [CHR 0x0A]"
  let ?dl = "length v + 3"
  let ?nl = "int (length nm) + 1"
  let ?i = "length (slots g)"
  let ?g1 = "g\<lparr>slots := slots g @ [new_slot L line ?nl],
               active_buffer_length := active_buffer_length g + ?nl\<rparr>"
  have colon: "memchr line (CHR '':'') (length line) = Some (length nm)"
    using memchr_first[OF nm, of "length line" ?bp]
    by (simp add: line_def)
  have d: "drop (length nm + 1) line = ?bp"
    by (simp add: line_def)
  have n: "length line - length nm - 1 = ?dl"
    by (simp add: line_def)
  have nocolon: "memchr ?bp (CHR '':'') ?dl = None"
    using v by (intro memchr_none) simp
  have bar: "memchr ?bp (CHR ''|'') ?dl = Some (length v)"
    using memchr_first[OF v(2), of ?dl "''c'' @ [CHR 0x0A]"] by simp
  have "byte_at ?bp (length v + 1) = CHR ''c''"
    by (simp add: byte_at_def nth_append)
  then have mt: "metric_type_of ?bp (length v) = TYPE_COUNTER"
    by (simp add: metric_type_of_def)
  have room1: "active_buffer_length g + ?nl \<le> DOWNSTREAM_BUF_SIZE"
    using room by simp
  from cap find_slot_new[OF nf room1, of L]
  have fs: "find_slot L line ?nl g = Inr (?i, ?g1)"
    by simp
  have ty: "type_s (slots ?g1 ! ?i) = TYPE_UNKNOWN"
    by (simp add: new_slot_def)
  have nfl: "\<not> needs_flush (metric_type_of ?bp (length v)) ?dl ?g1"
    using room unfolding mt by (simp add: needs_flush_def)
  have nl1: "name_length (slots ?g1 ! ?i) = ?nl"
    by (simp add: new_slot_def)
  have iv: "insert_values_into_slot L ?i line (length nm) (length line) ?g1
        = Inr (?i, store_counter L ?nl ?i ?bp ?dl (length v) (set_slot_type ?i TYPE_COUNTER ?g1))"
    using insert_values_single_group[of "length nm" line "length line",
          unfolded d n, OF nocolon, of L ?i ?g1]
      insert_group_first_sample[OF bar ty nfl, of L line ?nl]
    by (simp only: nl1 mt store_group_def simp_thms if_True)
  have "memchr (drop (length v + 1) ?bp) (CHR ''|'') (?dl - length v) = None"
    by (intro memchr_none) simp
  then have cr: "counter_rate L ?bp ?dl (length v) = d_one L"
    by (simp only: counter_rate_def option.case)
  have tk: "take (nat ?nl) line = nm @ [CHR '':'']"
    by (simp add: line_def nat_add_distrib)
  have fin: "store_counter L ?nl ?i ?bp ?dl (length v) (set_slot_type ?i TYPE_COUNTER ?g1) =
     g\<lparr>slots := slots g @
                  [\<lparr>buffer = nm @ CHR '':'' # sprintf_g15 L c @ ''|c'' @ [CHR 0x0A],
                    name_length = ?nl,
                    length_s = ?nl + (int (length (sprintf_g15 L c)) + 3),
                    counter = c, type_s = TYPE_COUNTER\<rparr>],
            active_buffer_length :=
              active_buffer_length g + ?nl + (int (length (sprintf_g15 L c)) + 3)\<rparr>"
    unfolding store_counter_def cr Let_def sd
    apply (simp add: set_slot_type_def new_slot_def tk c)
    done
  note iv' = iv[unfolded fin]
  show ?thesis
    unfolding len by (simp add: process_data_line_def colon fs iv')
qed

lemma strtod_mtu:
  "strtod dec_libc (''0.123456789012345'' @ ''|c'' @ [CHR 0x0A]) =
     ((123456789012345, 1000000000000000), length ''0.123456789012345'', False)"
  by code_simp

lemma sprintf_mtu:
  "sprintf_g15 dec_libc (123456789012345, 1000000000000000) = ''0.123456789012345''"
  by code_simp

lemma add_mtu:
  "(123456789012345, 1000000000000000) =
     d_add dec_libc (d_zero dec_libc)
        (d_div dec_libc (123456789012345, 1000000000000000) (d_one dec_libc))"
  by code_simp

lemma zero_dec_libc: "d_zero dec_libc = (0, 1)"
  by code_simp

lemma mtu_lines:
  assumes s: "slots g = []" and a: "active_buffer_length g = 0"
  shows "udp_lines dec_libc (mtu_line_1 @ mtu_line_2) 1452 g =
     Inr (g\<lparr>slots :=
              [\<lparr>buffer = ''a:'' @ replicate 1424 (CHR ''x'') @ ''|ms:'', name_length = 2,
                 length_s = 1430, counter = (0, 1), type_s = TYPE_OTHER\<rparr>,
               \<lparr>buffer = ''b:0.123456789012345|c'' @ [CHR 0x0A], name_length = 2,
                 length_s = 22, counter = (123456789012345, 1000000000000000),
                 type_s = TYPE_COUNTER\<rparr>],
            active_buffer_length := 1452\<rparr>)"
proof -
  let ?xs = "replicate 1424 (CHR ''x'')"
  let ?body1 = "''a:'' @ ?xs @ ''|ms''"
  let ?body2 = "''b:0.123456789012345|c''"
  let ?s1 = "\<lparr>buffer = ''a:'' @ ?xs @ ''|ms:'', name_length = 2,
                 length_s = 1430, counter = (0, 1) :: dec, type_s = TYPE_OTHER\<rparr>"
  let ?g1 = "g\<lparr>slots := [?s1], active_buffer_length := 1430\<rparr>"
  have l: "mtu_line_1 @ mtu_line_2 = ?body1 @ CHR 0x0A # mtu_line_2"
    by (simp add: mtu_line_1_def)
  have n1: "CHR 0x0A \<notin> set ?body1" by simp
  have a1: "length ?body1 < 1452" by simp
  have b1: "7 \<le> length ?body1 + 1 \<and> length ?body1 + 1 \<le> 1431" by simp
  have len1: "length ?body1 + 1 = 1430" by simp
  have p1: "process_data_line dec_libc (?body1 @ CHR 0x0A # mtu_line_2) 1430 g = Inr ?g1"
    using process_other_line[of "''a''" ?xs "''ms''" g mtu_line_2 dec_libc] s a
    by (simp add: slots_used_def zero_dec_libc)
  have st1: "udp_lines dec_libc (?body1 @ CHR 0x0A # mtu_line_2) 1452 g =
      udp_lines dec_libc mtu_line_2 22 ?g1"
    unfolding udp_lines_line[OF n1 a1] using b1 by (simp only: if_True len1 p1) simp
  have l2: "mtu_line_2 = ?body2 @ CHR 0x0A # []"
    by (simp add: mtu_line_2_def)
  have n2: "CHR 0x0A \<notin> set ?body2" by simp
  have a2: "length ?body2 < 22" by simp
  have b2: "7 \<le> length ?body2 + 1 \<and> length ?body2 + 1 \<le> 1431" by simp
  have len2: "length ?body2 + 1 = 22" by simp
  have nf2: "slot_index (slots ?g1) (''b'' @ CHR '':'' # ''0.123456789012345'' @ ''|c'' @ [CHR 0x0A])
               (int (length ''b'') + 1) 0 = None"
    by simp
  have p2: "process_data_line dec_libc (?body2 @ CHR 0x0A # []) 22 ?g1 =
     Inr (g\<lparr>slots :=
              [?s1,
               \<lparr>buffer = ''b:0.123456789012345|c'' @ [CHR 0x0A], name_length = 2,
                 length_s = 22, counter = (123456789012345, 1000000000000000),
                 type_s = TYPE_COUNTER\<rparr>],
            active_buffer_length := 1452\<rparr>)"
    using process_counter_line[of "''b''" "''0.123456789012345''" ?g1 dec_libc
        "(123456789012345, 1000000000000000)" "(123456789012345, 1000000000000000)" 22,
        OF _ _ _ nf2 _ _ strtod_mtu add_mtu]
    by (simp add: slots_used_def sprintf_mtu)
  have st2: "udp_lines dec_libc (?body2 @ CHR 0x0A # []) 22 ?g1 =
     Inr (g\<lparr>slots :=
              [?s1,
               \<lparr>buffer = ''b:0.123456789012345|c'' @ [CHR 0x0A], name_length = 2,
                 length_s = 22, counter = (123456789012345, 1000000000000000),
                 type_s = TYPE_COUNTER\<rparr>],
            active_buffer_length := 1452\<rparr>)"
    unfolding udp_lines_line[OF n2 a2] using b2
    by (simp only: if_True len2 p2 sum.case) (simp add: udp_lines_None)
  show ?thesis
    unfolding l st1 unfolding l2 st2 ..
qed

text \<open>
  Claim C2 fails on the code: the test of line 361 reserves \<open>MAX_COUNTER_LENGTH = 18\<close> bytes
  for a counter, and \<^verbatim>\<open>%.15g|c\n\<close> can print more. After a line of 1430 bytes the accounting
  is 1430; the name \<^verbatim>\<open>b:\<close> makes it 1432 and \<open>1432 + 18\<close> is not above 1450, so nothing is
  flushed; the counter prints as 20 bytes. The accounting is 1452, and the next flush packs
  a datagram of 1452 bytes into a buffer of 1450.
\<close>

theorem counter_text_exceeds_buffer:
  "length (mtu_line_1 @ mtu_line_2) = 1452
   \<and> udp_read_cb dec_libc (mtu_line_1 @ mtu_line_2) (init_downstream [0x0A000001]) = Inr mtu_state
   \<and> active_buffer_length mtu_state = 1452
   \<and> buffer_length (downstream_flush_timer_cb mtu_state) ! 0 = 1452
   \<and> int (length (buffer_ring (downstream_flush_timer_cb mtu_state) ! 0)) > DOWNSTREAM_BUF_SIZE"
proof -
  let ?g = "init_downstream [0x0A000001] :: dec downstream_s"
  have len: "length (mtu_line_1 @ mtu_line_2) = 1452"
    by (simp add: mtu_line_1_def mtu_line_2_def)
  have s: "slots ?g = []" and a: "active_buffer_length ?g = 0"
    by (simp_all add: init_downstream_def get_dns_data_def Let_def)
  have la: "last (mtu_line_1 @ mtu_line_2) = CHR 0x0A"
    by (simp add: mtu_line_2_def)
  have gt: "length (mtu_line_1 @ mtu_line_2) > 0"
    unfolding len by simp
  have "udp_read_cb dec_libc (mtu_line_1 @ mtu_line_2) ?g =
      udp_lines dec_libc (mtu_line_1 @ mtu_line_2) (length (mtu_line_1 @ mtu_line_2)) ?g"
    unfolding udp_read_cb_def Let_def by (simp only: gt la simp_thms if_True if_False)
  then have r: "udp_read_cb dec_libc (mtu_line_1 @ mtu_line_2) ?g = Inr mtu_state"
    unfolding len mtu_lines[OF s a] mtu_state_def .
  have f: "buffer_length (downstream_flush_timer_cb mtu_state) ! 0 = 1452
      \<and> int (length (buffer_ring (downstream_flush_timer_cb mtu_state) ! 0)) > DOWNSTREAM_BUF_SIZE"
    by (simp add: downstream_flush_timer_cb_def downstream_schedule_flush_def mtu_state_def
        init_downstream_def get_dns_data_def Let_def)
  have m: "active_buffer_length mtu_state = 1452"
    by (simp add: mtu_state_def)
  from len r m f show ?thesis by simp
qed

end
